theory Spec2Isabelle
  imports Main "HOL-Library.Word" "HOL-Library.Sublist" "HOL-Library.Multiset"
    "HOL-Library.List_Lexorder"
begin

section \<open>Strings of the program\<close>

text \<open>
  \<^verbatim>\<open>generate-json.js\<close> is a Node script. Its strings are sequences of 16-bit code
  units, and its regular expressions (none carries the \<^verbatim>\<open>u\<close> flag) work on code
  units. A string of the program is a list of 16-bit words; \<open>js\<close> writes an ASCII literal.
\<close>

type_synonym cu = "16 word"
type_synonym jsstring = "cu list"

definition js :: "string \<Rightarrow> jsstring" where
  "js s = map of_char s"

abbreviation NL :: cu where "NL \<equiv> 0x0A"
abbreviation CR :: cu where "CR \<equiv> 0x0D"
abbreviation DQ :: cu where "DQ \<equiv> 0x22"
abbreviation SQ :: cu where "SQ \<equiv> 0x27"

text \<open>
  The character classes of ECMAScript: \<^verbatim>\<open>LineTerminator\<close> (what \<^verbatim>\<open>.\<close> refuses
  and where a multiline \<^verbatim>\<open>^\<close> or \<^verbatim>\<open>$\<close> holds), \<^verbatim>\<open>\s\<close> (white space and line
  terminators, also what \<^verbatim>\<open>trim()\<close> removes), \<^verbatim>\<open>\d\<close> and \<^verbatim>\<open>\w\<close>.
\<close>

definition isLineTerminator :: "cu \<Rightarrow> bool" where
  "isLineTerminator c \<longleftrightarrow> c = 0x0A \<or> c = 0x0D \<or> c = 0x2028 \<or> c = 0x2029"

definition isWhiteSpace :: "cu \<Rightarrow> bool" where
  "isWhiteSpace c \<longleftrightarrow>
     c = 0x09 \<or> c = 0x0B \<or> c = 0x0C \<or> c = 0x20 \<or> c = 0xA0 \<or> c = 0xFEFF \<or>
     c = 0x1680 \<or> (0x2000 \<le> c \<and> c \<le> 0x200A) \<or> c = 0x202F \<or> c = 0x205F \<or> c = 0x3000 \<or>
     isLineTerminator c"

definition isDigit :: "cu \<Rightarrow> bool" where
  "isDigit c \<longleftrightarrow> 0x30 \<le> c \<and> c \<le> 0x39"

definition isWordChar :: "cu \<Rightarrow> bool" where
  "isWordChar c \<longleftrightarrow>
     (0x61 \<le> c \<and> c \<le> 0x7A) \<or> (0x41 \<le> c \<and> c \<le> 0x5A) \<or> isDigit c \<or> c = 0x5F"

subsection \<open>String methods\<close>

text \<open>
  \<^verbatim>\<open>s.trim()\<close>; \<^verbatim>\<open>s.split(sep)\<close> for a separator of one code unit (the program
  only splits on \<^verbatim>\<open>"\n"\<close>); \<^verbatim>\<open>xs.join(sep)\<close>; and \<^verbatim>\<open>s.replace(pat, rep)\<close> for a
  string pattern, which replaces the first occurrence only (the replacement of the program,
  \<^verbatim>\<open>""\<close>, holds no \<^verbatim>\<open>$\<close> pattern). \<^verbatim>\<open>startsWith\<close> and \<^verbatim>\<open>endsWith\<close> are
  \<^const>\<open>prefix\<close> and \<^const>\<open>suffix\<close>.
\<close>

definition trim :: "jsstring \<Rightarrow> jsstring" where
  "trim s = rev (dropWhile isWhiteSpace (rev (dropWhile isWhiteSpace s)))"

fun split_chr :: "cu \<Rightarrow> jsstring \<Rightarrow> jsstring \<Rightarrow> jsstring list" where
  "split_chr sep piece [] = [piece]"
| "split_chr sep piece (c # cs) =
     (if c = sep then piece # split_chr sep [] cs else split_chr sep (piece @ [c]) cs)"

fun join :: "jsstring \<Rightarrow> jsstring list \<Rightarrow> jsstring" where
  "join sep [] = []"
| "join sep [x] = x"
| "join sep (x # y # ys) = x @ sep @ join sep (y # ys)"

fun replace_str :: "jsstring \<Rightarrow> jsstring \<Rightarrow> jsstring \<Rightarrow> jsstring" where
  "replace_str pat rep [] = (if pat = [] then rep else [])"
| "replace_str pat rep (c # cs) =
     (if prefix pat (c # cs) then rep @ drop (length pat) (c # cs)
      else c # replace_str pat rep cs)"

section \<open>Regular expressions\<close>

text \<open>
  The fragment of ECMAScript regular expressions the program uses: literal characters,
  \<^verbatim>\<open>.\<close>, classes \<^verbatim>\<open>[...]\<close> and \<^verbatim>\<open>[^...]\<close> (with ranges and \<^verbatim>\<open>\d \w \s \S\<close>),
  the anchors \<^verbatim>\<open>^\<close> and \<^verbatim>\<open>$\<close>, sequence, alternation, the quantifiers
  \<^verbatim>\<open>* + ? {n} {n,}\<close> in their greedy and lazy forms, and capture groups.
\<close>

datatype cset = CLit cu | CRange cu cu | CDigit | CWord | CSpace | CNotSpace

fun in_cset :: "cu \<Rightarrow> cset \<Rightarrow> bool" where
  "in_cset c (CLit d) = (c = d)"
| "in_cset c (CRange a b) = (a \<le> c \<and> c \<le> b)"
| "in_cset c CDigit = isDigit c"
| "in_cset c CWord = isWordChar c"
| "in_cset c CSpace = isWhiteSpace c"
| "in_cset c CNotSpace = (\<not> isWhiteSpace c)"

datatype regex =
    Eps
  | Chr cu
  | Dot
  | Cls "cset list"
  | NCls "cset list"
  | Bol
  | Eol
  | Seq regex regex
  | Alt regex regex
  | Rep regex nat "nat option" bool
  | Grp nat regex

text \<open>
  \<open>Rep r min max greedy\<close> is the quantifier \<^verbatim>\<open>{min,max}\<close> (\<open>None\<close> for no upper
  bound), lazy when \<open>greedy\<close> is false; \<open>Grp n r\<close> is the \<open>n\<close>-th capture group.
\<close>

abbreviation many :: "regex \<Rightarrow> regex" where "many r \<equiv> Rep r 0 None True"
abbreviation many_lazy :: "regex \<Rightarrow> regex" where "many_lazy r \<equiv> Rep r 0 None False"
abbreviation many1 :: "regex \<Rightarrow> regex" where "many1 r \<equiv> Rep r 1 None True"
abbreviation many1_lazy :: "regex \<Rightarrow> regex" where "many1_lazy r \<equiv> Rep r 1 None False"
abbreviation opt :: "regex \<Rightarrow> regex" where "opt r \<equiv> Rep r 0 (Some 1) True"
abbreviation exactly :: "nat \<Rightarrow> regex \<Rightarrow> regex" where "exactly n r \<equiv> Rep r n (Some n) True"
abbreviation any_char :: regex where "any_char \<equiv> Cls [CSpace, CNotSpace]"
abbreviation space :: regex where "space \<equiv> Cls [CSpace]"
abbreviation digit :: regex where "digit \<equiv> Cls [CDigit]"
abbreviation word_char :: regex where "word_char \<equiv> Cls [CWord]"

fun seqs :: "regex list \<Rightarrow> regex" where
  "seqs [] = Eps"
| "seqs (r # rs) = Seq r (seqs rs)"

definition lit :: "string \<Rightarrow> regex" where
  "lit s = seqs (map Chr (js s))"

subsection \<open>The backtracking matcher\<close>

text \<open>
  A state of the matcher is a position in the input, held as the input before it (reversed:
  the nearest character first) and the input after it, and the captures made so far.

  \<open>matches m r x\<close> lists the states in which \<open>r\<close>, started in \<open>x\<close>, can end, in the order
  in which ECMAScript's backtracking matcher tries them (\<open>m\<close> is the multiline flag): its
  head is the match the engine reports for a pattern that ends with \<open>r\<close>, and \<open>Seq\<close>
  continues from the first end state that lets the rest of the pattern match. The
  quantifier follows \<^verbatim>\<open>RepeatMatcher\<close>: the captures of the quantified atom are reset at
  every iteration; once \<open>min\<close> is 0, an iteration that consumes nothing is abandoned (the
  engine compares the end indices; no atom moves backwards, so the test here is that the
  input left is shorter); a greedy quantifier tries one more iteration before stopping,
  a lazy one stops first.
\<close>

datatype mstate = MState (before: jsstring) (after: jsstring) (caps: "nat \<rightharpoonup> jsstring")

fun rdepth :: "regex \<Rightarrow> nat" where
  "rdepth (Seq r s) = Suc (rdepth r + rdepth s)"
| "rdepth (Alt r s) = Suc (rdepth r + rdepth s)"
| "rdepth (Rep r mn mx g) = Suc (rdepth r)"
| "rdepth (Grp n r) = Suc (rdepth r)"
| "rdepth _ = 0"

fun groups :: "regex \<Rightarrow> nat list" where
  "groups (Seq r s) = groups r @ groups s"
| "groups (Alt r s) = groups r @ groups s"
| "groups (Rep r mn mx g) = groups r"
| "groups (Grp n r) = n # groups r"
| "groups _ = []"

definition step :: "(cu \<Rightarrow> bool) \<Rightarrow> mstate \<Rightarrow> mstate list" where
  "step ok x = (case after x of [] \<Rightarrow> []
     | c # cs \<Rightarrow> if ok c then [MState (c # before x) cs (caps x)] else [])"

definition consumed :: "mstate \<Rightarrow> mstate \<Rightarrow> jsstring" where
  "consumed x y = take (length (after x) - length (after y)) (after x)"

definition clear :: "nat list \<Rightarrow> mstate \<Rightarrow> mstate" where
  "clear ns x = MState (before x) (after x) (\<lambda>n. if n \<in> set ns then None else caps x n)"

function matches :: "bool \<Rightarrow> regex \<Rightarrow> mstate \<Rightarrow> mstate list" where
  "matches m Eps x = [x]"
| "matches m (Chr c) x = step (\<lambda>d. d = c) x"
| "matches m Dot x = step (\<lambda>d. \<not> isLineTerminator d) x"
| "matches m (Cls cs) x = step (\<lambda>d. \<exists>k \<in> set cs. in_cset d k) x"
| "matches m (NCls cs) x = step (\<lambda>d. \<not> (\<exists>k \<in> set cs. in_cset d k)) x"
| "matches m Bol x = (case before x of [] \<Rightarrow> [x]
     | p # ps \<Rightarrow> if m \<and> isLineTerminator p then [x] else [])"
| "matches m Eol x = (case after x of [] \<Rightarrow> [x]
     | c # cs \<Rightarrow> if m \<and> isLineTerminator c then [x] else [])"
| "matches m (Seq r s) x = concat (map (matches m s) (matches m r x))"
| "matches m (Alt r s) x = matches m r x @ matches m s x"
| "matches m (Grp n r) x =
     map (\<lambda>y. MState (before y) (after y) ((caps y)(n \<mapsto> consumed x y))) (matches m r x)"
| "matches m (Rep r mn mx g) x =
     (if mx = Some 0 then [x]
      else if 0 < mn then
        concat (map (matches m (Rep r (mn - 1) (map_option (\<lambda>k. k - 1) mx) g))
                    (matches m r (clear (groups r) x)))
      else if g then
        concat (map (matches m (Rep r 0 (map_option (\<lambda>k. k - 1) mx) g))
                    (filter (\<lambda>y. length (after y) < length (after x))
                            (matches m r (clear (groups r) x)))) @ [x]
      else
        x # concat (map (matches m (Rep r 0 (map_option (\<lambda>k. k - 1) mx) g))
                        (filter (\<lambda>y. length (after y) < length (after x))
                                (matches m r (clear (groups r) x)))))"
  by pat_completeness auto
termination
  by (relation "measures [\<lambda>(m, r, x). rdepth r,
                           \<lambda>(m, r, x). case r of Rep r' mn mx g \<Rightarrow> mn | _ \<Rightarrow> 0,
                           \<lambda>(m, r, x). length (after x)]")
     auto

declare matches.simps(11) [simp del]

subsection \<open>Methods that take a regular expression\<close>

text \<open>
  \<^verbatim>\<open>RegExpBuiltinExec\<close> tries the pattern at every index from the start of the input and
  reports the first index at which it matches, with the match the matcher prefers there.
  \<open>re_exec\<close> is \<^verbatim>\<open>s.match(re)\<close> for a pattern without the \<^verbatim>\<open>g\<close> flag (the result
  is the end state, whose captures are read with \<open>group\<close>), \<open>re_test\<close> is
  \<^verbatim>\<open>re.test(s)\<close> and a truthy \<^verbatim>\<open>s.match(re)\<close>. In a replacement template a group that
  took no part in the match reads as the empty string.
\<close>

fun exec_at :: "bool \<Rightarrow> regex \<Rightarrow> jsstring \<Rightarrow> jsstring \<Rightarrow> mstate option" where
  "exec_at m r bef aft =
     (case matches m r (MState bef aft Map.empty) of
        y # ys \<Rightarrow> Some y
      | [] \<Rightarrow> (case aft of [] \<Rightarrow> None | c # cs \<Rightarrow> exec_at m r (c # bef) cs))"

declare exec_at.simps [simp del]

definition re_exec :: "bool \<Rightarrow> regex \<Rightarrow> jsstring \<Rightarrow> mstate option" where
  "re_exec m r s = exec_at m r [] s"

definition re_test :: "bool \<Rightarrow> regex \<Rightarrow> jsstring \<Rightarrow> bool" where
  "re_test m r s \<longleftrightarrow> re_exec m r s \<noteq> None"

definition group :: "mstate \<Rightarrow> nat \<Rightarrow> jsstring" where
  "group y n = (case caps y n of None \<Rightarrow> [] | Some s \<Rightarrow> s)"

text \<open>
  \<^verbatim>\<open>s.replace(re, f)\<close> with the \<^verbatim>\<open>g\<close> flag: the matches are found from left to
  right, each search starting where the last match ended (one code unit further after an
  empty match); the text between matches is kept. The replacement \<open>f\<close> gets the matched
  text and the end state (for the captures); a template such as \<^verbatim>\<open>"<h1>$1</h1>"\<close> is
  written as the function that builds it. Without the flag only the first match is replaced.
\<close>

function replace_at ::
  "bool \<Rightarrow> regex \<Rightarrow> (jsstring \<Rightarrow> mstate \<Rightarrow> jsstring) \<Rightarrow> jsstring \<Rightarrow> jsstring \<Rightarrow> jsstring" where
  "replace_at m r f bef aft =
     (case matches m r (MState bef aft Map.empty) of
        y # ys \<Rightarrow>
          if length (after y) < length aft
          then f (take (length aft - length (after y)) aft) y @ replace_at m r f (before y) (after y)
          else f [] y @ (case aft of [] \<Rightarrow> [] | c # cs \<Rightarrow> c # replace_at m r f (c # bef) cs)
      | [] \<Rightarrow> (case aft of [] \<Rightarrow> [] | c # cs \<Rightarrow> c # replace_at m r f (c # bef) cs))"
  by pat_completeness auto
termination
  by (relation "measure (\<lambda>(m, r, f, bef, aft). length aft)") auto

declare replace_at.simps [simp del]

definition replace_all ::
  "bool \<Rightarrow> regex \<Rightarrow> (jsstring \<Rightarrow> mstate \<Rightarrow> jsstring) \<Rightarrow> jsstring \<Rightarrow> jsstring" where
  "replace_all m r f s = replace_at m r f [] s"

fun replace_first_at ::
  "bool \<Rightarrow> regex \<Rightarrow> (jsstring \<Rightarrow> mstate \<Rightarrow> jsstring) \<Rightarrow> jsstring \<Rightarrow> jsstring \<Rightarrow> jsstring" where
  "replace_first_at m r f bef aft =
     (case matches m r (MState bef aft Map.empty) of
        y # ys \<Rightarrow> f (take (length aft - length (after y)) aft) y @ after y
      | [] \<Rightarrow> (case aft of [] \<Rightarrow> [] | c # cs \<Rightarrow> c # replace_first_at m r f (c # bef) cs))"

declare replace_first_at.simps [simp del]

definition replace_first ::
  "bool \<Rightarrow> regex \<Rightarrow> (jsstring \<Rightarrow> mstate \<Rightarrow> jsstring) \<Rightarrow> jsstring \<Rightarrow> jsstring" where
  "replace_first m r f s = replace_first_at m r f [] s"

text \<open>
  \<^verbatim>\<open>s.split(re)\<close> (no limit, no capture group in the pattern): the pattern is tried at
  every index \<open>q\<close> after the start \<open>p\<close> of the current piece; a match that ends at \<open>p\<close>
  is passed over, any other match closes the piece and the next piece starts where the
  match ended. The empty string splits into one empty piece unless the pattern matches it.
\<close>

function split_at :: "regex \<Rightarrow> jsstring \<Rightarrow> jsstring \<Rightarrow> jsstring \<Rightarrow> jsstring list" where
  "split_at r piece bef aft =
     (case aft of [] \<Rightarrow> [piece]
      | c # cs \<Rightarrow>
         (case matches False r (MState bef aft Map.empty) of
            [] \<Rightarrow> split_at r (piece @ [c]) (c # bef) cs
          | y # ys \<Rightarrow>
             if length (after y) < length aft then piece # split_at r [] (before y) (after y)
             else if piece = [] then split_at r [c] (c # bef) cs
             else piece # split_at r [c] (c # bef) cs))"
  by pat_completeness auto
termination
  by (relation "measure (\<lambda>(r, piece, bef, aft). length aft)") auto

declare split_at.simps [simp del]

definition split_re :: "regex \<Rightarrow> jsstring \<Rightarrow> jsstring list" where
  "split_re r s =
     (if s = [] then (if matches False r (MState [] [] Map.empty) = [] then [[]] else [])
      else split_at r [] [] s)"

section \<open>JSON.parse\<close>

text \<open>
  \<^verbatim>\<open>JSON.parse\<close> belongs to the runtime. It is modelled after the JSON grammar
  (ECMA-404): the four white space characters, the literals, numbers, strings with their
  escapes, arrays and objects, and nothing but white space after the value. A number is
  kept as its lexeme (its value as a double is not computed) and an object as its members
  in the order written; the program passes the parsed array on without looking into it.
  The tests \<open>length r < length s\<close> below always hold of a value that was parsed; they
  are what makes the recursion well-founded.
\<close>

datatype json = JNull | JBool bool | JNum jsstring | JStr jsstring
  | JArr "json list" | JObj "(jsstring \<times> json) list"

datatype error = SyntaxError | NotModelled

definition json_ws :: "cu \<Rightarrow> bool" where
  "json_ws c \<longleftrightarrow> c = 0x20 \<or> c = 0x09 \<or> c = 0x0A \<or> c = 0x0D"

definition hexval :: "cu \<Rightarrow> cu option" where
  "hexval c = (if 0x30 \<le> c \<and> c \<le> 0x39 then Some (c - 0x30)
               else if 0x41 \<le> c \<and> c \<le> 0x46 then Some (c - 0x37)
               else if 0x61 \<le> c \<and> c \<le> 0x66 then Some (c - 0x57)
               else None)"

definition hex4 :: "cu \<Rightarrow> cu \<Rightarrow> cu \<Rightarrow> cu \<Rightarrow> cu option" where
  "hex4 a b c d =
     (case (hexval a, hexval b, hexval c, hexval d) of
        (Some h3, Some h2, Some h1, Some h0) \<Rightarrow> Some (h3 * 0x1000 + h2 * 0x100 + h1 * 0x10 + h0)
      | _ \<Rightarrow> None)"

definition unescape :: "cu \<Rightarrow> cu option" where
  "unescape e =
     (if e = 0x22 \<or> e = 0x5C \<or> e = 0x2F then Some e
      else if e = 0x62 then Some 0x08
      else if e = 0x66 then Some 0x0C
      else if e = 0x6E then Some 0x0A
      else if e = 0x72 then Some 0x0D
      else if e = 0x74 then Some 0x09
      else None)"

text \<open>The characters of a string after its opening quote, up to the closing one.\<close>

fun json_string :: "jsstring \<Rightarrow> jsstring \<Rightarrow> (jsstring \<times> jsstring) option" where
  "json_string acc [] = None"
| "json_string acc (c # cs) =
     (if c = 0x22 then Some (rev acc, cs)
      else if c = 0x5C then
        (case cs of
           [] \<Rightarrow> None
         | e # r \<Rightarrow>
            if e = 0x75 then
              (case r of
                 a # b # c # d # r' \<Rightarrow>
                   (case hex4 a b c d of None \<Rightarrow> None | Some u \<Rightarrow> json_string (u # acc) r')
               | _ \<Rightarrow> None)
            else (case unescape e of None \<Rightarrow> None | Some u \<Rightarrow> json_string (u # acc) r))
      else if c < 0x20 then None
      else json_string (c # acc) cs)"

definition digits_then :: "jsstring \<Rightarrow> (jsstring \<times> jsstring) option" where
  "digits_then s = (case s of [] \<Rightarrow> None
     | d # r \<Rightarrow> if isDigit d then Some (d # takeWhile isDigit r, dropWhile isDigit r) else None)"

text \<open>
  A number: an optional minus, the integer part (\<^verbatim>\<open>0\<close> alone, or digits that do not
  start with \<^verbatim>\<open>0\<close>), then a fraction and an exponent where they are complete. An
  incomplete fraction or exponent is left in the input, where nothing accepts it.
\<close>

definition json_number :: "jsstring \<Rightarrow> (jsstring \<times> jsstring) option" where
  "json_number s =
     (case (case s of [] \<Rightarrow> ([], s) | c # r \<Rightarrow> if c = 0x2D then ([c], r) else ([], s)) of
        (sign, s1) \<Rightarrow>
     (case (case s1 of [] \<Rightarrow> None
            | d # r \<Rightarrow> if d = 0x30 then Some ([d], r) else digits_then s1) of
        None \<Rightarrow> None
      | Some (ip, s2) \<Rightarrow>
     (case (case s2 of [] \<Rightarrow> ([], s2)
            | c # r \<Rightarrow> if c = 0x2E then
                         (case digits_then r of None \<Rightarrow> ([], s2) | Some (ds, r') \<Rightarrow> (c # ds, r'))
                       else ([], s2)) of
        (fp, s3) \<Rightarrow>
     (case (case s3 of [] \<Rightarrow> ([], s3)
            | c # r \<Rightarrow> if c = 0x65 \<or> c = 0x45 then
                  (case (case r of [] \<Rightarrow> ([], r)
                         | g # r' \<Rightarrow> if g = 0x2B \<or> g = 0x2D then ([g], r') else ([], r)) of
                     (sg, r1) \<Rightarrow>
                       (case digits_then r1 of None \<Rightarrow> ([], s3)
                        | Some (ds, r2) \<Rightarrow> (c # sg @ ds, r2)))
                else ([], s3)) of
        (ep, s4) \<Rightarrow> Some (sign @ ip @ fp @ ep, s4)))))"

lemma dropWhile_Cons_shorter: "dropWhile P s = c # r \<Longrightarrow> length r < length s"
  using length_dropWhile_le [of P s] by simp

function json_value :: "jsstring \<Rightarrow> (json \<times> jsstring) option"
  and json_elements :: "json list \<Rightarrow> jsstring \<Rightarrow> (json \<times> jsstring) option"
  and json_members :: "(jsstring \<times> json) list \<Rightarrow> jsstring \<Rightarrow> (json \<times> jsstring) option"
where
  "json_value s =
     (case dropWhile json_ws s of
        [] \<Rightarrow> None
      | c # r \<Rightarrow>
         if c = 0x5B then
           (case dropWhile json_ws r of
              [] \<Rightarrow> None
            | d # r' \<Rightarrow> if d = 0x5D then Some (JArr [], r') else json_elements [] r)
         else if c = 0x7B then
           (case dropWhile json_ws r of
              [] \<Rightarrow> None
            | d # r' \<Rightarrow> if d = 0x7D then Some (JObj [], r') else json_members [] r)
         else if c = 0x22 then map_option (\<lambda>(t, r'). (JStr t, r')) (json_string [] r)
         else if prefix (js ''true'') (c # r) then Some (JBool True, drop 4 (c # r))
         else if prefix (js ''false'') (c # r) then Some (JBool False, drop 5 (c # r))
         else if prefix (js ''null'') (c # r) then Some (JNull, drop 4 (c # r))
         else map_option (\<lambda>(l, r'). (JNum l, r')) (json_number (c # r)))"
| "json_elements acc s =
     (case json_value s of
        None \<Rightarrow> None
      | Some (v, r) \<Rightarrow>
         if length r < length s then
           (case dropWhile json_ws r of
              [] \<Rightarrow> None
            | d # r' \<Rightarrow>
               if d = 0x2C then json_elements (acc @ [v]) r'
               else if d = 0x5D then Some (JArr (acc @ [v]), r')
               else None)
         else None)"
| "json_members acc s =
     (case dropWhile json_ws s of
        [] \<Rightarrow> None
      | q # r0 \<Rightarrow>
         if q = 0x22 then
           (case json_string [] r0 of
              None \<Rightarrow> None
            | Some (k, r1) \<Rightarrow>
               (case dropWhile json_ws r1 of
                  [] \<Rightarrow> None
                | col # r2 \<Rightarrow>
                   if col = 0x3A \<and> length r2 < length s then
                     (case json_value r2 of
                        None \<Rightarrow> None
                      | Some (v, r3) \<Rightarrow>
                         if length r3 < length r2 then
                           (case dropWhile json_ws r3 of
                              [] \<Rightarrow> None
                            | d # r4 \<Rightarrow>
                               if d = 0x2C then json_members (acc @ [(k, v)]) r4
                               else if d = 0x7D then Some (JObj (acc @ [(k, v)]), r4)
                               else None)
                         else None)
                   else None))
         else None)"
  by pat_completeness auto
termination
  by (relation "measure (\<lambda>x. case x of Inl s \<Rightarrow> 2 * length s
                  | Inr (Inl (acc, s)) \<Rightarrow> 2 * length s + 1
                  | Inr (Inr (acc, s)) \<Rightarrow> 2 * length s + 1)")
     (auto dest!: dropWhile_Cons_shorter)

declare json_value.simps [simp del] json_elements.simps [simp del] json_members.simps [simp del]

definition JSON_parse :: "jsstring \<Rightarrow> error + json" where
  "JSON_parse s =
     (case json_value s of
        None \<Rightarrow> Inl SyntaxError
      | Some (v, r) \<Rightarrow> if dropWhile json_ws r = [] then Inr v else Inl SyntaxError)"

section \<open>parseFrontMatter\<close>

text \<open>
  \<^verbatim>\<open>const FM_REGEX = /^---\r?\n([\s\S]*?)\r?\n---\r?\n?([\s\S]*)$/;\<close>
\<close>

definition FM_REGEX :: regex where
  "FM_REGEX = seqs [Bol, lit ''---'', opt (Chr CR), Chr NL, Grp 1 (many_lazy any_char),
                    opt (Chr CR), Chr NL, lit ''---'', opt (Chr CR), opt (Chr NL),
                    Grp 2 (many any_char), Eol]"

text \<open>\<^verbatim>\<open>line.match(/^(\w[\w-]*):\s*(.*)/)\<close>\<close>

definition KEY_RE :: regex where
  "KEY_RE = seqs [Bol, Grp 1 (seqs [word_char, many (Cls [CWord, CLit 0x2D])]), Chr 0x3A,
                  many space, Grp 2 (many Dot)]"

text \<open>\<^verbatim>\<open>/^\s+-\s+/\<close>, the test of the inner loop and the pattern of its first replace\<close>

definition ITEM_RE :: regex where
  "ITEM_RE = seqs [Bol, many1 space, Chr 0x2D, many1 space]"

text \<open>\<^verbatim>\<open>.replace(/^["']|["']$/g, "")\<close>, on a block item and on a plain string value\<close>

definition QUOTES_RE :: regex where
  "QUOTES_RE = Alt (seqs [Bol, Cls [CLit DQ, CLit SQ]]) (seqs [Cls [CLit DQ, CLit SQ], Eol])"

definition strip_quotes :: "jsstring \<Rightarrow> jsstring" where
  "strip_quotes s = replace_all False QUOTES_RE (\<lambda>_ _. []) s"

text \<open>\<^verbatim>\<open>/^\d{4}-\d{2}-\d{2}$/.test(rest)\<close>\<close>

definition DATE_RE :: regex where
  "DATE_RE = seqs [Bol, exactly 4 digit, Chr 0x2D, exactly 2 digit, Chr 0x2D, exactly 2 digit, Eol]"

text \<open>
  A value of the metadata object \<^verbatim>\<open>data\<close>: a string, a boolean or an array. The object
  is a map from keys to values; the program reads it only at \<^verbatim>\<open>draft\<close>, \<^verbatim>\<open>title\<close>,
  \<^verbatim>\<open>slug\<close>, \<^verbatim>\<open>date\<close>, \<^verbatim>\<open>summary\<close>, \<^verbatim>\<open>tags\<close> and \<^verbatim>\<open>featured\<close>, none of which
  an object inherits, so a key that was never assigned reads as \<^verbatim>\<open>undefined\<close> (\<open>None\<close>).
\<close>

datatype fmval = FStr jsstring | FBool bool | FArr "json list"

type_synonym fmdata = "jsstring \<rightharpoonup> fmval"

text \<open>
  The inner loop, which collects the items of a block array from line \<open>i\<close> on:
  \<^verbatim>\<open>
      while (i < lines.length && lines[i].match(/^\s+-\s+/)) {
        arr.push(lines[i].replace(/^\s+-\s+/, "").replace(/^["']|["']$/g, ""));
        i++;
      }\<close>
  It returns the array and the index of the first line it did not take.
\<close>

function block_items :: "jsstring list \<Rightarrow> nat \<Rightarrow> json list \<Rightarrow> json list \<times> nat" where
  "block_items lines i arr =
     (if i < length lines \<and> re_test False ITEM_RE (lines ! i)
      then block_items lines (i + 1)
             (arr @ [JStr (strip_quotes (replace_first False ITEM_RE (\<lambda>_ _. []) (lines ! i)))])
      else (arr, i))"
  by pat_completeness auto
termination
  by (relation "measure (\<lambda>(lines, i, arr). length lines - i)") auto

declare block_items.simps [simp del]

lemma block_items_ge: "i \<le> snd (block_items lines i arr)"
proof (induction lines i arr rule: block_items.induct)
  case (1 lines i arr)
  show ?case
  proof (cases "i < length lines \<and> re_test False ITEM_RE (lines ! i)")
    case True
    with 1 have "i + 1 \<le> snd (block_items lines i arr)"
      by (subst block_items.simps) simp
    then show ?thesis by simp
  next
    case False
    then show ?thesis by (subst block_items.simps) auto
  qed
qed

lemma block_items_next:
  assumes "(arr, j) = block_items lines (Suc i) acc" and "i < length lines"
  shows "length lines - j < length lines - i"
proof -
  have "Suc i \<le> snd (block_items lines (Suc i) acc)" by (rule block_items_ge)
  with assms(1) have "Suc i \<le> j" by (metis snd_conv)
  with assms(2) show ?thesis by arith
qed

text \<open>
  The loop over the lines of the YAML block (source lines 30 to 67), from line \<open>i\<close> on.
  \<^verbatim>\<open>JSON.parse\<close> is the one call that can throw; what it throws leaves the function.
  Its argument starts with \<^verbatim>\<open>[\<close>, so what it returns is an array (lemma
  \<open>JSON_parse_bracket\<close> below); the branch for any other value is never taken.
\<close>

function parse_lines :: "jsstring list \<Rightarrow> nat \<Rightarrow> fmdata \<Rightarrow> error + fmdata" where
  "parse_lines lines i data =
     (if \<not> i < length lines then Inr data
      else
        (case re_exec False KEY_RE (lines ! i) of
           None \<Rightarrow> parse_lines lines (i + 1) data
         | Some keyMatch \<Rightarrow>
            (case (group keyMatch 1, trim (group keyMatch 2)) of
               (key, rest) \<Rightarrow>
                 if rest = [] then
                   (case block_items lines (i + 1) [] of
                      (arr, j) \<Rightarrow> parse_lines lines j (data(key \<mapsto> FArr arr)))
                 else if prefix (js ''['') rest then
                   (case JSON_parse (replace_all False (Chr SQ) (\<lambda>_ _. [DQ]) rest) of
                      Inl e \<Rightarrow> Inl e
                    | Inr (JArr xs) \<Rightarrow> parse_lines lines (i + 1) (data(key \<mapsto> FArr xs))
                    | Inr _ \<Rightarrow> Inl NotModelled)
                 else if rest = js ''true'' then
                   parse_lines lines (i + 1) (data(key \<mapsto> FBool True))
                 else if rest = js ''false'' then
                   parse_lines lines (i + 1) (data(key \<mapsto> FBool False))
                 else if re_test False DATE_RE rest then
                   parse_lines lines (i + 1) (data(key \<mapsto> FStr rest))
                 else
                   parse_lines lines (i + 1) (data(key \<mapsto> FStr (strip_quotes rest))))))"
  by pat_completeness auto
termination
  by (relation "measure (\<lambda>(lines, i, data). length lines - i)")
     (auto dest: block_items_next)

declare parse_lines.simps [simp del]

definition parseFrontMatter :: "jsstring \<Rightarrow> error + (fmdata \<times> jsstring)" where
  "parseFrontMatter raw =
     (case re_exec False FM_REGEX raw of
        None \<Rightarrow> Inr (Map.empty, raw)
      | Some match \<Rightarrow>
         (case parse_lines (split_chr NL [] (group match 1)) 0 Map.empty of
            Inl e \<Rightarrow> Inl e
          | Inr data \<Rightarrow> Inr (data, group match 2)))"

section \<open>markdownToHtml\<close>

text \<open>
  \<^verbatim>\<open>
  function escapeHtml(str) {
    return str.replace(/&/g, "&amp;").replace(/</g, "&lt;").replace(/>/g, "&gt;");
  }\<close>
\<close>

definition escapeHtml :: "jsstring \<Rightarrow> jsstring" where
  "escapeHtml str =
     replace_all False (Chr 0x3E) (\<lambda>_ _. js ''&gt;'')
       (replace_all False (Chr 0x3C) (\<lambda>_ _. js ''&lt;'')
         (replace_all False (Chr 0x26) (\<lambda>_ _. js ''&amp;'') str))"

text \<open>The patterns of the chain of replacements, in the order of the source.\<close>

definition FENCE_RE :: regex where
  \<comment> \<open>\<^verbatim>\<open>/```(\w*)\n([\s\S]*?)```/g\<close>\<close>
  "FENCE_RE = seqs [lit ''```'', Grp 1 (many word_char), Chr NL, Grp 2 (many_lazy any_char), lit ''```'']"

definition CODE_RE :: regex where
  \<comment> \<open>\<^verbatim>\<open>/`([^`]+)`/g\<close>\<close>
  "CODE_RE = seqs [Chr 0x60, Grp 1 (many1 (NCls [CLit 0x60])), Chr 0x60]"

definition HEADING_RE :: "nat \<Rightarrow> regex" where
  \<comment> \<open>\<^verbatim>\<open>/^#{n}\s+(.+)$/gm\<close> for \<open>n\<close> from 4 down to 1\<close>
  "HEADING_RE n = seqs [Bol, exactly n (Chr 0x23), many1 space, Grp 1 (many1 Dot), Eol]"

definition BOLD_ITALIC_RE :: regex where
  \<comment> \<open>\<^verbatim>\<open>/\*\*\*(.+?)\*\*\*/g\<close>\<close>
  "BOLD_ITALIC_RE = seqs [lit ''***'', Grp 1 (many1_lazy Dot), lit ''***'']"

definition BOLD_RE :: regex where
  \<comment> \<open>\<^verbatim>\<open>/\*\*(.+?)\*\*/g\<close>\<close>
  "BOLD_RE = seqs [lit ''**'', Grp 1 (many1_lazy Dot), lit ''**'']"

definition ITALIC_RE :: regex where
  \<comment> \<open>\<^verbatim>\<open>/\*(.+?)\*/g\<close>\<close>
  "ITALIC_RE = seqs [lit ''*'', Grp 1 (many1_lazy Dot), lit ''*'']"

definition LIST_ITEM_RE :: regex where
  \<comment> \<open>\<^verbatim>\<open>/^[-*]\s+(.+)$/gm\<close>\<close>
  "LIST_ITEM_RE = seqs [Bol, Cls [CLit 0x2D, CLit 0x2A], many1 space, Grp 1 (many1 Dot), Eol]"

definition HR_RE :: regex where
  \<comment> \<open>\<^verbatim>\<open>/^---$/gm\<close>\<close>
  "HR_RE = seqs [Bol, lit ''---'', Eol]"

definition LINK_RE :: regex where
  \<comment> \<open>\<^verbatim>\<open>/\[([^\]]+)\]\(([^)]+)\)/g\<close>\<close>
  "LINK_RE = seqs [Chr 0x5B, Grp 1 (many1 (NCls [CLit 0x5D])), Chr 0x5D,
                   Chr 0x28, Grp 2 (many1 (NCls [CLit 0x29])), Chr 0x29]"

definition LI_RUN_RE :: regex where
  \<comment> \<open>\<^verbatim>\<open>/(<li>.*<\/li>\n?)+/g\<close>\<close>
  "LI_RUN_RE = many1 (Grp 1 (seqs [lit ''<li>'', many Dot, lit ''</li>'', opt (Chr NL)]))"

definition BLANK_LINES_RE :: regex where
  \<comment> \<open>\<^verbatim>\<open>/\n{2,}/\<close>\<close>
  "BLANK_LINES_RE = Rep (Chr NL) 2 None True"

definition BLOCK_TAG_RE :: regex where
  \<comment> \<open>\<^verbatim>\<open>/^<(h[1-6]|ul|ol|li|pre|hr|blockquote)/\<close>\<close>
  "BLOCK_TAG_RE = seqs [Bol, Chr 0x3C,
     Grp 1 (Alt (seqs [Chr 0x68, Cls [CRange 0x31 0x36]])
           (Alt (lit ''ul'') (Alt (lit ''ol'') (Alt (lit ''li'') (Alt (lit ''pre'')
           (Alt (lit ''hr'') (lit ''blockquote'')))))))]"

text \<open>The template \<^verbatim>\<open>"<t>$1</t>"\<close>.\<close>

definition tagged :: "string \<Rightarrow> jsstring \<Rightarrow> mstate \<Rightarrow> jsstring" where
  "tagged t _ y = js ''<'' @ js t @ js ''>'' @ group y 1 @ js ''</'' @ js t @ js ''>''"

text \<open>
  The first statement of \<^verbatim>\<open>markdownToHtml\<close> (source lines 74 to 94): twelve replacements,
  each on the result of the one before; the innermost call below is the first of the source.
\<close>

definition inline_markup :: "jsstring \<Rightarrow> jsstring" where
  "inline_markup md =
     replace_all False LINK_RE
         (\<lambda>_ y. js ''<a href=\"'' @ group y 2 @ js ''\">'' @ group y 1 @ js ''</a>'')
     (replace_all True HR_RE (\<lambda>_ _. js ''<hr>'')
     (replace_all True LIST_ITEM_RE (tagged ''li'')
     (replace_all False ITALIC_RE (tagged ''em'')
     (replace_all False BOLD_RE (tagged ''strong'')
     (replace_all False BOLD_ITALIC_RE
         (\<lambda>_ y. js ''<strong><em>'' @ group y 1 @ js ''</em></strong>'')
     (replace_all True (HEADING_RE 1) (tagged ''h1'')
     (replace_all True (HEADING_RE 2) (tagged ''h2'')
     (replace_all True (HEADING_RE 3) (tagged ''h3'')
     (replace_all True (HEADING_RE 4) (tagged ''h4'')
     (replace_all False CODE_RE
         (\<lambda>_ y. js ''<code>'' @ escapeHtml (group y 1) @ js ''</code>'')
     (replace_all False FENCE_RE
         (\<lambda>_ y. js ''<pre><code''
                 @ (if group y 1 \<noteq> [] then js '' class=\"language-'' @ group y 1 @ js ''\"'' else [])
                 @ js ''>'' @ escapeHtml (trim (group y 2)) @ js ''</code></pre>'')
       md)))))))))))"

text \<open>
  \<^verbatim>\<open>html = html.replace(/(<li>.*<\/li>\n?)+/g, (block) => `<ul>${block}</ul>`);\<close>
\<close>

definition wrap_lists :: "jsstring \<Rightarrow> jsstring" where
  "wrap_lists html = replace_all False LI_RUN_RE (\<lambda>block _. js ''<ul>'' @ block @ js ''</ul>'') html"

text \<open>
  The function mapped over the blocks:
  \<^verbatim>\<open>
      block = block.trim();
      if (!block) return "";
      if (/^<(h[1-6]|ul|ol|li|pre|hr|blockquote)/.test(block)) return block;
      return `<p>${block.replace(/\n/g, " ")}</p>`;\<close>
\<close>

definition wrap_block :: "jsstring \<Rightarrow> jsstring" where
  "wrap_block block0 =
     (case trim block0 of
        [] \<Rightarrow> []
      | c # cs \<Rightarrow>
         if re_test False BLOCK_TAG_RE (c # cs) then c # cs
         else js ''<p>'' @ replace_all False (Chr NL) (\<lambda>_ _. js '' '') (c # cs) @ js ''</p>'')"

definition markdownToHtml :: "jsstring \<Rightarrow> jsstring" where
  "markdownToHtml md =
     join [NL] (map wrap_block (split_re BLANK_LINES_RE (wrap_lists (inline_markup md))))"

section \<open>generateJson\<close>

text \<open>
  The post object. \<^verbatim>\<open>title\<close>, \<^verbatim>\<open>slug\<close>, \<^verbatim>\<open>date\<close> and \<^verbatim>\<open>summary\<close> come from
  \<^verbatim>\<open>data.k || default\<close> and hold whatever value the metadata had there.
\<close>

record post =
  title :: fmval
  slug :: fmval
  date :: fmval
  summary :: fmval
  tags :: "json list"
  featured :: bool
  content :: jsstring

text \<open>\<^verbatim>\<open>ToBoolean\<close>: the empty string and \<^verbatim>\<open>false\<close> are falsy, every array is truthy.\<close>

fun truthy :: "fmval \<Rightarrow> bool" where
  "truthy (FStr s) = (s \<noteq> [])"
| "truthy (FBool b) = b"
| "truthy (FArr xs) = True"

text \<open>\<^verbatim>\<open>data.k || d\<close>, for the property \<open>v\<close> read from \<^verbatim>\<open>data\<close>\<close>

definition or_else :: "fmval option \<Rightarrow> fmval \<Rightarrow> fmval" where
  "or_else v d = (case v of None \<Rightarrow> d | Some w \<Rightarrow> if truthy w then w else d)"

text \<open>
  The body of the callback of \<^verbatim>\<open>files.map\<close> after the file was read and parsed
  (source lines 148 to 165): \<^verbatim>\<open>null\<close> (\<open>None\<close>) for a draft, the post otherwise.
\<close>

definition make_post :: "jsstring \<Rightarrow> fmdata \<Rightarrow> jsstring \<Rightarrow> post option" where
  "make_post filename data body =
     (if data (js ''draft'') = Some (FBool True) then None
      else Some \<lparr>
        title = or_else (data (js ''title'')) (FStr []),
        slug = or_else (data (js ''slug'')) (FStr (replace_str (js ''.md'') [] filename)),
        date = or_else (data (js ''date'')) (FStr []),
        summary = or_else (data (js ''summary'')) (FStr []),
        tags = (case data (js ''tags'') of Some (FArr xs) \<Rightarrow> xs | _ \<Rightarrow> []),
        featured = (data (js ''featured'') = Some (FBool True)),
        content = markdownToHtml body \<rparr>)"

text \<open>
  \<^verbatim>\<open>files.map(...)\<close> over the directory, given as the list of its entries with the text
  of each file, in the order \<^verbatim>\<open>readdirSync\<close> lists them. An exception in one file ends
  the run.
\<close>

fun map_posts :: "(jsstring \<times> jsstring) list \<Rightarrow> error + post option list" where
  "map_posts [] = Inr []"
| "map_posts (file # files) =
     (case parseFrontMatter (snd file) of
        Inl e \<Rightarrow> Inl e
      | Inr parsed \<Rightarrow>
         (case map_posts files of
            Inl e \<Rightarrow> Inl e
          | Inr ps \<Rightarrow> Inr (make_post (fst file) (fst parsed) (snd parsed) # ps)))"

text \<open>
  \<^verbatim>\<open>.sort((a, b) => (a.date < b.date ? 1 : -1))\<close>. On two strings \<^verbatim>\<open><\<close> compares code
  units lexicographically. On any other pair of values it converts to numbers, that is to
  doubles, which this development does not model: the comparison is then \<open>None\<close> and the
  run ends as \<open>NotModelled\<close>.
\<close>

fun str_lt :: "jsstring \<Rightarrow> jsstring \<Rightarrow> bool" where
  "str_lt [] [] = False"
| "str_lt [] (y # ys) = True"
| "str_lt (x # xs) [] = False"
| "str_lt (x # xs) (y # ys) = (x < y \<or> (x = y \<and> str_lt xs ys))"

fun js_lt :: "fmval \<Rightarrow> fmval \<Rightarrow> bool option" where
  "js_lt (FStr s) (FStr t) = Some (str_lt s t)"
| "js_lt _ _ = None"

definition by_date :: "post \<Rightarrow> post \<Rightarrow> int option" where
  "by_date a b = map_option (\<lambda>lt. if lt then 1 else - 1) (js_lt (date a) (date b))"

text \<open>
  \<^verbatim>\<open>Array.prototype.sort\<close> belongs to the runtime, and with a comparator that never
  returns 0 the standard leaves the order of equal elements to the engine. The model is
  the insertion sort Node's engine runs on a short array: each element in turn is the
  pivot, placed before the first element \<open>e\<close> of the sorted part with
  \<^verbatim>\<open>comparefn(pivot, e) < 0\<close>. The theorems below state only what every sort that goes by
  the sign of the comparator yields: a permutation, in descending order of date.
\<close>

fun insert_sorted :: "('a \<Rightarrow> 'a \<Rightarrow> int option) \<Rightarrow> 'a \<Rightarrow> 'a list \<Rightarrow> 'a list option" where
  "insert_sorted cmp pivot [] = Some [pivot]"
| "insert_sorted cmp pivot (e # es) =
     (case cmp pivot e of
        None \<Rightarrow> None
      | Some order \<Rightarrow>
         if order < 0 then Some (pivot # e # es)
         else map_option ((#) e) (insert_sorted cmp pivot es))"

fun sort_from :: "('a \<Rightarrow> 'a \<Rightarrow> int option) \<Rightarrow> 'a list \<Rightarrow> 'a list \<Rightarrow> 'a list option" where
  "sort_from cmp acc [] = Some acc"
| "sort_from cmp acc (pivot # rest) =
     (case insert_sorted cmp pivot acc of
        None \<Rightarrow> None
      | Some acc' \<Rightarrow> sort_from cmp acc' rest)"

definition array_sort :: "('a \<Rightarrow> 'a \<Rightarrow> int option) \<Rightarrow> 'a list \<Rightarrow> 'a list option" where
  "array_sort cmp xs = sort_from cmp [] xs"

text \<open>
  \<^verbatim>\<open>generateJson\<close>, from the listing of the posts directory to the array it writes:
  the files whose name ends in \<^verbatim>\<open>.md\<close> are mapped to posts, the \<^verbatim>\<open>null\<close>s of the
  drafts are filtered out and the posts are sorted. (The directory is taken to exist;
  logging and the write of \<^verbatim>\<open>dist/posts.json\<close> are left out.)
\<close>

definition generateJson :: "(jsstring \<times> jsstring) list \<Rightarrow> error + post list" where
  "generateJson dir =
     (case map_posts (filter (\<lambda>file. suffix (js ''.md'') (fst file)) dir) of
        Inl e \<Rightarrow> Inl e
      | Inr ps \<Rightarrow>
         (case array_sort by_date (List.map_filter id ps) of
            None \<Rightarrow> Inl NotModelled
          | Some posts \<Rightarrow> Inr posts))"

section \<open>Notions of the specification\<close>

text \<open>
  The definitions of this section are not part of the program: they state what the
  specification talks about, so that the theorems can compare it with the program.
\<close>

text \<open>What \<^verbatim>\<open>parseFrontMatter\<close> stored under a key (\<open>None\<close> when it threw).\<close>

definition metadata :: "jsstring \<Rightarrow> jsstring \<Rightarrow> fmval option" where
  "metadata raw key = (case parseFrontMatter raw of Inr parsed \<Rightarrow> fst parsed key | Inl e \<Rightarrow> None)"

text \<open>
  The key and the trimmed value of a \<^verbatim>\<open>key: value\<close> line, as the loop of the parser
  reads them from its match; \<open>None\<close> for a line the pattern does not match.
\<close>

definition key_line :: "jsstring \<Rightarrow> (jsstring \<times> jsstring) option" where
  "key_line line = map_option (\<lambda>keyMatch. (group keyMatch 1, trim (group keyMatch 2)))
                              (re_exec False KEY_RE line)"

text \<open>The lines of the YAML block of a document, when \<^verbatim>\<open>FM_REGEX\<close> matches it.\<close>

definition yaml_lines :: "jsstring \<Rightarrow> jsstring list option" where
  "yaml_lines raw = map_option (\<lambda>match. split_chr NL [] (group match 1))
                               (re_exec False FM_REGEX raw)"




text \<open>
  A document that begins with a delimiter line and has a later delimiter line, as the
  specification words it: the first line is \<^verbatim>\<open>---\<close> and so is a later line (a carriage
  return before the line feed is allowed).
\<close>

definition delimiter_line :: "jsstring \<Rightarrow> bool" where
  "delimiter_line l \<longleftrightarrow> l = js ''---'' \<or> l = js ''---'' @ [CR]"

definition has_delimiter_lines :: "jsstring \<Rightarrow> bool" where
  "has_delimiter_lines raw =
     (case split_chr NL [] raw of [] \<Rightarrow> False
      | l # ls \<Rightarrow> delimiter_line l \<and> list_ex delimiter_line ls)"

text \<open>
  What the pattern asks for: the document begins with \<^verbatim>\<open>---\<close> and a line break, and
  somewhere after that a line feed is followed by \<^verbatim>\<open>---\<close> (whatever follows it).
\<close>

fun has_closing :: "jsstring \<Rightarrow> bool" where
  "has_closing [] = False"
| "has_closing (c # cs) = (prefix (NL # js ''---'') (c # cs) \<or> has_closing cs)"

definition has_block :: "jsstring \<Rightarrow> bool" where
  "has_block raw =
     (if prefix (js ''---'' @ [NL]) raw then has_closing (drop 4 raw)
      else if prefix (js ''---'' @ [CR, NL]) raw then has_closing (drop 5 raw)
      else False)"







text \<open>A list item as the chain of replacements writes it, and a run of such lines.\<close>

definition li :: "jsstring \<Rightarrow> jsstring" where
  "li item = js ''<li>'' @ item @ js ''</li>''"




definition ul :: "jsstring \<Rightarrow> jsstring" where
  "ul block = js ''<ul>'' @ block @ js ''</ul>''"

section \<open>Properties of the matcher\<close>

text \<open>
  A match only moves forward: the end state extends the start state by the text consumed.
\<close>

definition extends :: "mstate \<Rightarrow> mstate \<Rightarrow> bool" where
  "extends x y \<longleftrightarrow> (\<exists>w. after x = w @ after y \<and> before y = rev w @ before x)"

lemma step_Nil: "after x = [] \<Longrightarrow> step ok x = []"
  by (simp add: step_def)

lemma step_Cons:
  "after x = c # cs \<Longrightarrow> step ok x = (if ok c then [MState (c # before x) cs (caps x)] else [])"
  by (simp add: step_def)

lemma step_MState:
  "step ok (MState b (c # cs) k) = (if ok c then [MState (c # b) cs k] else [])"
  "step ok (MState b [] k) = []"
  by (simp_all add: step_def)

lemma extends_refl: "extends x x"
  by (simp add: extends_def)

lemma extends_trans: "extends x y \<Longrightarrow> extends y z \<Longrightarrow> extends x z"
  unfolding extends_def by (metis append.assoc rev_append)

lemma extends_clear: "extends (clear ns x) y \<Longrightarrow> extends x y"
  by (simp add: extends_def clear_def)

lemma extends_caps: "extends x y \<Longrightarrow> extends x (MState (before y) (after y) c)"
  by (simp add: extends_def)

lemma extends_step:
  assumes "after x = c # cs"
  shows "extends x (MState (c # before x) cs k)"
proof -
  have "after x = [c] @ cs \<and> c # before x = rev [c] @ before x" using assms by simp
  then show ?thesis unfolding extends_def mstate.sel by blast
qed

lemma step_extends: "list_all (extends x) (step ok x)"
proof (cases "after x")
  case Nil
  then show ?thesis by (simp add: step_Nil)
next
  case (Cons c cs)
  then show ?thesis by (cases "ok c") (simp_all add: step_Cons extends_step)
qed

lemma list_all_concat_map:
  "list_all P (concat (map f xs)) = list_all (\<lambda>x. list_all P (f x)) xs"
  by (induction xs) simp_all

lemma list_all_filter_mono: "list_all P xs \<Longrightarrow> list_all P (filter Q xs)"
  by (induction xs) simp_all

lemma matches_extends: "list_all (extends x) (matches m r x)"
proof (induction m r x rule: matches.induct)
  case (6 m x)
  show ?case
  proof (cases "before x")
    case Nil
    then show ?thesis by (simp add: extends_refl)
  next
    case (Cons p ps)
    then show ?thesis by (cases "m \<and> isLineTerminator p") (simp_all add: extends_refl)
  qed
next
  case (7 m x)
  show ?case
  proof (cases "after x")
    case Nil
    then show ?thesis by (simp add: extends_refl)
  next
    case (Cons p ps)
    then show ?thesis by (cases "m \<and> isLineTerminator p") (simp_all add: extends_refl)
  qed
next
  case (8 m r s x)
  have "list_all (\<lambda>z. list_all (extends x) (matches m s z)) (matches m r x)"
    unfolding list_all_iff
  proof (intro ballI)
    fix z y assume z: "z \<in> set (matches m r x)" and y: "y \<in> set (matches m s z)"
    from "8.IH"(1) z have "extends x z" by (simp add: list_all_iff)
    moreover from "8.IH"(2) [OF z] y have "extends z y" by (simp add: list_all_iff)
    ultimately show "extends x y" by (rule extends_trans)
  qed
  then show ?case by (simp add: list_all_concat_map)
next
  case (9 m r s x)
  then show ?case by simp
next
  case (10 m n r x)
  have "list_all (\<lambda>y. extends x (MState (before y) (after y) ((caps y)(n \<mapsto> consumed x y)))) (matches m r x)"
    using "10.IH" unfolding list_all_iff by (auto intro: extends_caps)
  then show ?case by (simp add: list_all_iff)
next
  case (11 m r mn mx g x)
  let ?x' = "clear (groups r) x"
  let ?mx' = "map_option (\<lambda>k. k - 1) mx"
  show ?case
  proof (cases "mx = Some 0")
    case True
    then show ?thesis by (simp add: matches.simps(11) extends_refl)
  next
    case nz: False
    show ?thesis
    proof (cases "0 < mn")
      case True
      have inner: "\<And>z. z \<in> set (matches m r ?x') \<Longrightarrow> extends x z"
        using "11.IH"(1) [OF nz True] by (auto simp: list_all_iff intro: extends_clear)
      have "list_all (\<lambda>z. list_all (extends x) (matches m (Rep r (mn - 1) ?mx' g) z)) (matches m r ?x')"
        unfolding list_all_iff
      proof (intro ballI)
        fix z y assume z: "z \<in> set (matches m r ?x')"
          and y: "y \<in> set (matches m (Rep r (mn - 1) ?mx' g) z)"
        from "11.IH"(2) [OF nz True z] y have "extends z y" by (simp add: list_all_iff)
        with inner [OF z] show "extends x y" by (rule extends_trans)
      qed
      with nz True show ?thesis by (simp add: matches.simps(11) list_all_concat_map)
    next
      case False
      let ?zs = "filter (\<lambda>y. length (after y) < length (after x)) (matches m r ?x')"
      have inner: "\<And>z. z \<in> set (matches m r ?x') \<Longrightarrow> extends x z"
      proof (cases g)
        case True
        fix z assume "z \<in> set (matches m r ?x')"
        with "11.IH"(3) [OF nz False True] show "extends x z"
          by (auto simp: list_all_iff intro: extends_clear)
      next
        case g: False
        fix z assume "z \<in> set (matches m r ?x')"
        with "11.IH"(5) [OF nz False g] show "extends x z"
          by (auto simp: list_all_iff intro: extends_clear)
      qed
      have "list_all (\<lambda>z. list_all (extends x) (matches m (Rep r 0 ?mx' g) z)) ?zs"
        unfolding list_all_iff
      proof (intro ballI)
        fix z y assume z: "z \<in> set ?zs" and y: "y \<in> set (matches m (Rep r 0 ?mx' g) z)"
        from z have z1: "z \<in> set (matches m r ?x')" and z2: "length (after z) < length (after x)"
          by simp_all
        have "extends z y"
        proof (cases g)
          case True
          from "11.IH"(4) [OF nz False True] z y show ?thesis by (simp add: list_all_iff)
        next
          case g: False
          from "11.IH"(6) [OF nz False g] z y show ?thesis by (simp add: list_all_iff)
        qed
        with inner [OF z1] show "extends x y" by (rule extends_trans)
      qed
      with nz False show ?thesis
        by (cases g) (simp_all add: matches.simps(11) list_all_concat_map extends_refl)
    qed
  qed
qed (simp_all add: extends_refl step_extends)

subsection \<open>The pattern that strips quotes\<close>







section \<open>Properties of the collector\<close>














section \<open>Properties of the front-matter parser\<close>

lemma Bol_start: "matches m Bol (MState [] aft k) = [MState [] aft k]"
  by simp

lemma Bol_inner: "matches False Bol (MState (p # ps) aft k) = []"
  by simp

lemma exec_at_anchored: "bef \<noteq> [] \<Longrightarrow> exec_at False (Seq Bol r) bef aft = None"
proof (induction aft arbitrary: bef)
  case Nil
  then show ?case by (cases bef) (simp_all add: exec_at.simps)
next
  case (Cons c cs)
  have "exec_at False (Seq Bol r) (c # bef) cs = None" by (rule Cons.IH) simp
  with Cons.prems show ?case by (cases bef) (simp_all add: exec_at.simps)
qed

lemma re_exec_anchored:
  "re_exec False (Seq Bol r) s =
     (case matches False (Seq Bol r) (MState [] s Map.empty) of [] \<Rightarrow> None | y # ys \<Rightarrow> Some y)"
proof (cases s)
  case Nil
  then show ?thesis by (simp add: re_exec_def exec_at.simps split: list.splits)
next
  case (Cons c cs)
  have "exec_at False (Seq Bol r) [c] cs = None" by (rule exec_at_anchored) simp
  then show ?thesis unfolding re_exec_def Cons
    by (subst exec_at.simps) (simp split: list.splits)
qed

lemma word_not_space: "isWordChar c \<Longrightarrow> \<not> isWhiteSpace c"
  unfolding isWordChar_def isWhiteSpace_def isDigit_def isLineTerminator_def
  by (auto simp: word_le_nat_alt)

lemma key_matches_first:
  "matches False KEY_RE (MState [] l k) \<noteq> [] \<Longrightarrow> \<exists>c cs. l = c # cs \<and> isWordChar c"
proof (cases l)
  case Nil
  assume "matches False KEY_RE (MState [] l k) \<noteq> []"
  with Nil show ?thesis by (simp add: KEY_RE_def step_MState)
next
  case (Cons c cs)
  assume *: "matches False KEY_RE (MState [] l k) \<noteq> []"
  have "isWordChar c"
  proof (rule ccontr)
    assume "\<not> isWordChar c"
    then have "matches False KEY_RE (MState [] (c # cs) k) = []"
      by (simp add: KEY_RE_def step_MState)
    with * Cons show False by simp
  qed
  with Cons show ?thesis by simp
qed

lemma item_matches_first:
  "\<not> isWhiteSpace c \<Longrightarrow> matches False ITEM_RE (MState [] (c # cs) k) = []"
  by (simp add: ITEM_RE_def matches.simps(11) step_def clear_def)

lemma item_matches_Nil: "matches False ITEM_RE (MState [] [] k) = []"
  by (simp add: ITEM_RE_def matches.simps(11) step_def clear_def)

lemma anchored_exec:
  assumes "re = Seq Bol r"
  shows "re_exec False re s \<noteq> None \<longleftrightarrow> matches False re (MState [] s Map.empty) \<noteq> []"
  unfolding assms by (subst re_exec_anchored) (simp split: list.splits)

lemma KEY_RE_anchored: "\<exists>r. KEY_RE = Seq Bol r"
  by (simp add: KEY_RE_def)

lemma ITEM_RE_anchored: "\<exists>r. ITEM_RE = Seq Bol r"
  by (simp add: ITEM_RE_def)

lemma key_line_not_item:
  assumes "key_line l = Some kr"
  shows "\<not> re_test False ITEM_RE l"
proof -
  obtain r where r: "KEY_RE = Seq Bol r" using KEY_RE_anchored by blast
  obtain r' where r': "ITEM_RE = Seq Bol r'" using ITEM_RE_anchored by blast
  from assms have "re_exec False KEY_RE l \<noteq> None" by (auto simp: key_line_def)
  then have "matches False KEY_RE (MState [] l Map.empty) \<noteq> []"
    using anchored_exec [OF r, of l] by blast
  then obtain c cs where l: "l = c # cs" and "isWordChar c"
    using key_matches_first by blast
  then have "\<not> isWhiteSpace c" by (simp add: word_not_space)
  then have "matches False ITEM_RE (MState [] l Map.empty) = []"
    unfolding l by (rule item_matches_first)
  then show ?thesis
    unfolding re_test_def using anchored_exec [OF r', of l] by blast
qed

lemma json_elements_array:
  "json_elements acc s = Some (v, r) \<Longrightarrow> \<exists>xs. v = JArr xs"
proof (induction "length s" arbitrary: s acc v r rule: less_induct)
  case less
  from less.prems obtain w t where w: "json_value s = Some (w, t)" and t: "length t < length s"
    by (subst (asm) json_elements.simps) (auto split: option.splits if_splits)
  show ?case
  proof (cases "dropWhile json_ws t")
    case Nil
    with less.prems w t show ?thesis by (subst (asm) json_elements.simps) simp
  next
    case (Cons d r')
    then have len: "length r' < length s"
      using dropWhile_Cons_shorter [OF Cons] t by simp
    show ?thesis
    proof (cases "d = 0x2C")
      case True
      with less.prems w t Cons have "json_elements (acc @ [w]) r' = Some (v, r)"
        by (subst (asm) json_elements.simps) simp
      with less.hyps [OF len] show ?thesis by blast
    next
      case False
      with less.prems w t Cons show ?thesis
        by (subst (asm) json_elements.simps) (auto split: if_splits)
    qed
  qed
qed

lemma json_value_bracket:
  "json_value (0x5B # s) = Some (v, r) \<Longrightarrow> \<exists>xs. v = JArr xs"
  by (subst (asm) json_value.simps)
     (auto simp: json_ws_def split: list.splits if_splits dest: json_elements_array)

lemma replace_quote_bracket:
  "replace_all False (Chr SQ) f (0x5B # s) = 0x5B # replace_at False (Chr SQ) f [0x5B] s"
  unfolding replace_all_def by (subst replace_at.simps) (simp add: step_MState)

lemma JSON_parse_bracket:
  assumes "prefix (js ''['') rest"
    and "JSON_parse (replace_all False (Chr SQ) (\<lambda>_ _. [DQ]) rest) = Inr v"
  shows "\<exists>xs. v = JArr xs"
proof -
  from assms(1) obtain s where rest: "rest = 0x5B # s"
    by (cases rest) (auto simp: js_def)
  from assms(2) show ?thesis
    unfolding rest replace_quote_bracket JSON_parse_def
    by (auto split: option.splits if_splits dest: json_value_bracket)
qed

lemma JSON_parse_error: "JSON_parse s = Inl e \<Longrightarrow> e = SyntaxError"
  by (auto simp: JSON_parse_def split: option.splits if_splits)

lemma block_items_le:
  "k \<le> i \<Longrightarrow> i < length lines \<Longrightarrow> \<not> re_test False ITEM_RE (lines ! i)
     \<Longrightarrow> snd (block_items lines k arr) \<le> i"
proof (induction lines k arr rule: block_items.induct)
  case (1 lines k arr)
  show ?case
  proof (cases "k < length lines \<and> re_test False ITEM_RE (lines ! k)")
    case True
    with "1.prems" have "k \<noteq> i" by auto
    with "1.prems" have "k + 1 \<le> i" by simp
    with 1 True show ?thesis by (subst block_items.simps) simp
  next
    case False
    with "1.prems" show ?thesis by (subst block_items.simps) auto
  qed
qed

lemma key_line_Some:
  "key_line l = Some (key, rest) \<longleftrightarrow>
     (\<exists>keyMatch. re_exec False KEY_RE l = Some keyMatch \<and> key = group keyMatch 1
        \<and> rest = trim (group keyMatch 2))"
  by (auto simp: key_line_def)

lemma key_line_None: "key_line l = None \<longleftrightarrow> re_exec False KEY_RE l = None"
  by (simp add: key_line_def)

text \<open>The loop, one line at a time, in terms of \<open>key_line\<close>.\<close>

lemma parse_lines_end: "\<not> i < length lines \<Longrightarrow> parse_lines lines i data = Inr data"
  by (subst parse_lines.simps) simp

lemma parse_lines_skip:
  "i < length lines \<Longrightarrow> key_line (lines ! i) = None
     \<Longrightarrow> parse_lines lines i data = parse_lines lines (i + 1) data"
  by (subst parse_lines.simps) (simp add: key_line_None)

lemma parse_lines_key:
  assumes "i < length lines" and "key_line (lines ! i) = Some (key, rest)"
  shows "parse_lines lines i data =
     (if rest = [] then
        (case block_items lines (i + 1) [] of
           (arr, j) \<Rightarrow> parse_lines lines j (data(key \<mapsto> FArr arr)))
      else if prefix (js ''['') rest then
        (case JSON_parse (replace_all False (Chr SQ) (\<lambda>_ _. [DQ]) rest) of
           Inl e \<Rightarrow> Inl e
         | Inr (JArr xs) \<Rightarrow> parse_lines lines (i + 1) (data(key \<mapsto> FArr xs))
         | Inr _ \<Rightarrow> Inl NotModelled)
      else if rest = js ''true'' then parse_lines lines (i + 1) (data(key \<mapsto> FBool True))
      else if rest = js ''false'' then parse_lines lines (i + 1) (data(key \<mapsto> FBool False))
      else if re_test False DATE_RE rest then parse_lines lines (i + 1) (data(key \<mapsto> FStr rest))
      else parse_lines lines (i + 1) (data(key \<mapsto> FStr (strip_quotes rest))))"
proof -
  from assms(2) obtain keyMatch where km: "re_exec False KEY_RE (lines ! i) = Some keyMatch"
    and k: "group keyMatch 1 = key" and r: "trim (group keyMatch 2) = rest"
    by (auto simp: key_line_Some)
  show ?thesis
    by (subst parse_lines.simps)
       (simp only: assms(1) km k r simp_thms if_False option.case prod.case)
qed

lemma parse_lines_bad:
  assumes "i < length lines" and "key_line (lines ! i) = Some (key, rest)"
    and "prefix (js ''['') rest"
    and "JSON_parse (replace_all False (Chr SQ) (\<lambda>_ _. [DQ]) rest) = Inl e"
  shows "j \<le> i \<Longrightarrow> parse_lines lines j data = Inl SyntaxError"
proof (induction "i - j" arbitrary: j data rule: less_induct)
  case less
  have not_empty: "rest \<noteq> []" using assms(3) by (auto simp: js_def)
  show ?case
  proof (cases "j = i")
    case True
    from assms(4) have "e = SyntaxError" by (rule JSON_parse_error)
    with assms True not_empty show ?thesis by (simp add: parse_lines_key)
  next
    case False
    with less.prems have lt: "j < i" by simp
    then have jl: "j < length lines" using assms(1) by simp
    have step: "parse_lines lines j' d = Inl SyntaxError" if "j < j'" "j' \<le> i" for j' d
      using less.hyps [of j' d] that by simp
    show ?thesis
    proof (cases "key_line (lines ! j)")
      case None
      with jl lt show ?thesis by (simp add: parse_lines_skip step)
    next
      case (Some kr)
      obtain k r where kr: "kr = (k, r)" by (cases kr)
      show ?thesis
      proof (cases "r = []")
        case True
        obtain arr j' where b: "block_items lines (j + 1) [] = (arr, j')"
          by (cases "block_items lines (j + 1) []")
        have "j + 1 \<le> snd (block_items lines (j + 1) [])" by (rule block_items_ge)
        moreover have "snd (block_items lines (j + 1) []) \<le> i"
          using lt assms(1) key_line_not_item [OF assms(2)] by (intro block_items_le) simp_all
        ultimately have "j < j'" "j' \<le> i" using b by simp_all
        with jl Some kr True b show ?thesis by (simp add: parse_lines_key step)
      next
        case ne: False
        show ?thesis
        proof (cases "prefix (js ''['') r")
          case True
          show ?thesis
          proof (cases "JSON_parse (replace_all False (Chr SQ) (\<lambda>_ _. [DQ]) r)")
            case (Inl e')
            then have "e' = SyntaxError" by (rule JSON_parse_error)
            with jl Some kr ne True Inl show ?thesis by (simp add: parse_lines_key)
          next
            case (Inr v)
            with True obtain xs where "v = JArr xs" using JSON_parse_bracket by blast
            with jl Some kr ne True Inr lt show ?thesis by (simp add: parse_lines_key step)
          qed
        next
          case False
          with jl Some kr ne lt show ?thesis by (simp add: parse_lines_key step)
        qed
      qed
    qed
  qed
qed

subsection \<open>What a match of the front-matter pattern implies\<close>

lemma concat_map_concat:
  "concat (map f (concat (map g xs))) = concat (map (\<lambda>x. concat (map f (g x))) xs)"
  by (induction xs) simp_all

lemma seq_assoc: "matches m (Seq (Seq a b) c) x = matches m (Seq a (Seq b c)) x"
proof -
  have "matches m (Seq b c) = (\<lambda>y. concat (map (matches m c) (matches m b y)))"
    by (rule ext) simp
  then show ?thesis by (simp add: concat_map_concat)
qed

lemma bol_seq: "matches m (Seq Bol r) (MState [] aft k) = matches m r (MState [] aft k)"
  by simp

lemma seq_eps: "matches m (Seq Eps r) x = matches m r x"
  by simp

lemma chr_seq:
  "matches m (Seq (Chr c) r) (MState bef aft k) =
     (case aft of [] \<Rightarrow> []
      | d # ds \<Rightarrow> if d = c then matches m r (MState (d # bef) ds k) else [])"
  by (cases aft) (simp_all add: step_MState)

lemma clear_Nil: "clear [] x = x"
  by (cases x) (simp add: clear_def)


lemma opt_chr:
  "matches m (opt (Chr c)) (MState bef aft k) =
     (case aft of [] \<Rightarrow> [MState bef aft k]
      | d # ds \<Rightarrow> if d = c then [MState (d # bef) ds k, MState bef aft k]
                 else [MState bef aft k])"
  by (cases aft) (simp_all add: matches.simps(11) clear_Nil step_MState)

lemma opt_chr_seq:
  "matches m (Seq (opt (Chr c)) r) (MState bef aft k) =
     (case aft of [] \<Rightarrow> matches m r (MState bef aft k)
      | d # ds \<Rightarrow> if d = c then matches m r (MState (d # bef) ds k) @ matches m r (MState bef aft k)
                 else matches m r (MState bef aft k))"
  unfolding matches.simps(8) opt_chr by (cases aft) simp_all

lemmas opt_chr_seq_Suc = opt_chr_seq [unfolded One_nat_def]

lemma lit_dashes: "lit ''---'' = Seq (Chr 0x2D) (Seq (Chr 0x2D) (Seq (Chr 0x2D) Eps))"
  by (simp add: lit_def js_def)

lemma js_dashes: "js ''---'' = [0x2D, 0x2D, 0x2D]"
  by (simp add: js_def)

lemma concat_map_nonempty:
  "concat (map f xs) \<noteq> [] \<Longrightarrow> list_all P xs \<Longrightarrow> \<exists>z. P z \<and> f z \<noteq> []"
  by (induction xs) auto

lemma fm_opening:
  assumes "matches False (seqs (Bol # lit ''---'' # opt (Chr CR) # Chr NL # rs)) (MState [] raw k) \<noteq> []"
  shows "\<exists>nl r1. raw = js ''---'' @ nl @ r1 \<and> (nl = [NL] \<or> nl = [CR, NL])
           \<and> matches False (seqs rs) (MState (rev (js ''---'' @ nl)) r1 k) \<noteq> []"
proof -
  from assms obtain r0 where raw: "raw = js ''---'' @ r0"
    and r0: "matches False (Seq (opt (Chr CR)) (Seq (Chr NL) (seqs rs)))
               (MState (rev (js ''---'')) r0 k) \<noteq> []"
    by (simp add: lit_dashes js_dashes bol_seq seq_assoc seq_eps chr_seq del: matches.simps
          split: list.splits if_splits)
  from r0 have "(\<exists>r1. r0 = [NL] @ r1 \<and> matches False (seqs rs) (MState (rev (js ''---'' @ [NL])) r1 k) \<noteq> [])
      \<or> (\<exists>r1. r0 = [CR, NL] @ r1 \<and> matches False (seqs rs) (MState (rev (js ''---'' @ [CR, NL])) r1 k) \<noteq> [])"
    by (simp add: opt_chr_seq_Suc chr_seq js_dashes del: matches.simps split: list.splits if_splits)
  then show ?thesis
  proof (elim disjE exE conjE)
    fix r1
    assume "r0 = [NL] @ r1"
      and "matches False (seqs rs) (MState (rev (js ''---'' @ [NL])) r1 k) \<noteq> []"
    then show ?thesis unfolding raw by (intro exI [of _ "[NL]"] exI [of _ r1]) simp
  next
    fix r1
    assume "r0 = [CR, NL] @ r1"
      and "matches False (seqs rs) (MState (rev (js ''---'' @ [CR, NL])) r1 k) \<noteq> []"
    then show ?thesis unfolding raw by (intro exI [of _ "[CR, NL]"] exI [of _ r1]) simp
  qed
qed

lemma group_then:
  assumes "matches m (seqs (Grp n r # rs)) x \<noteq> []"
  shows "\<exists>z. extends x z \<and> matches m (seqs rs) z \<noteq> []"
proof -
  have "list_all (extends x) (matches m (Grp n r) x)" by (rule matches_extends)
  with assms show ?thesis
    unfolding seqs.simps matches.simps(8) by (rule concat_map_nonempty)
qed

lemma fm_closing:
  assumes "matches False (seqs (opt (Chr CR) # Chr NL # lit ''---'' # rs)) (MState b a k) \<noteq> []"
  shows "prefix (NL # js ''---'') a \<or> prefix (CR # NL # js ''---'') a"
  using assms
  by (simp add: lit_dashes js_dashes seq_assoc seq_eps opt_chr_seq_Suc chr_seq del: matches.simps
        split: list.splits if_splits)

lemma has_closing_append: "has_closing (w @ NL # js ''---'' @ t)"
  by (induction w) simp_all

lemma has_closing_prefix: "prefix (NL # js ''---'') a \<Longrightarrow> has_closing (w @ a)"
  using has_closing_append [of w] by (auto simp: prefix_def)

lemma has_closing_prefix_cr: "prefix (CR # NL # js ''---'') a \<Longrightarrow> has_closing (w @ a)"
  using has_closing_append [of "w @ [CR]"] by (auto simp: prefix_def)

lemma fm_match_block:
  assumes "matches False FM_REGEX (MState [] raw k) \<noteq> []"
  shows "has_block raw"
proof -
  let ?rest = "[opt (Chr CR), Chr NL, lit ''---'', opt (Chr CR), opt (Chr NL),
                Grp 2 (many any_char), Eol]"
  from assms obtain nl r1 where raw: "raw = js ''---'' @ nl @ r1"
    and nl: "nl = [NL] \<or> nl = [CR, NL]"
    and m: "matches False (seqs (Grp 1 (many_lazy any_char) # ?rest))
              (MState (rev (js ''---'' @ nl)) r1 k) \<noteq> []"
    unfolding FM_REGEX_def by (blast dest: fm_opening)
  from group_then [OF m] obtain z where
    z: "extends (MState (rev (js ''---'' @ nl)) r1 k) z" and c: "matches False (seqs ?rest) z \<noteq> []"
    by blast
  from z obtain w where w: "r1 = w @ after z" by (auto simp: extends_def)
  obtain b a k' where zz: "z = MState b a k'" by (cases z)
  from c [unfolded zz] have "prefix (NL # js ''---'') a \<or> prefix (CR # NL # js ''---'') a"
    by (rule fm_closing)
  then have "prefix (NL # js ''---'') (after z) \<or> prefix (CR # NL # js ''---'') (after z)"
    by (simp add: zz)
  then have "has_closing r1"
    unfolding w using has_closing_prefix has_closing_prefix_cr by blast
  with raw nl show ?thesis
    by (auto simp: has_block_def js_dashes)
qed

lemma FM_REGEX_anchored: "\<exists>r. FM_REGEX = Seq Bol r"
  by (simp add: FM_REGEX_def)

lemma no_block_no_match: "\<not> has_block raw \<Longrightarrow> re_exec False FM_REGEX raw = None"
proof -
  assume nb: "\<not> has_block raw"
  obtain r where r: "FM_REGEX = Seq Bol r" using FM_REGEX_anchored by blast
  have "matches False FM_REGEX (MState [] raw Map.empty) = []"
    using nb fm_match_block by blast
  then show ?thesis using anchored_exec [OF r, of raw] by blast
qed

subsection \<open>Every front-matter block is matched\<close>

lemma any_char_Cons: "matches m any_char (MState b (c # cs) k) = [MState (c # b) cs k]"
  by (simp add: step_MState)

lemma any_char_Nil: "matches m any_char (MState b [] k) = []"
  by (simp add: step_MState)

lemma lazy_any_Nil: "matches m (many_lazy any_char) (MState b [] k) = [MState b [] k]"
  by (subst matches.simps(11)) (simp add: clear_Nil step_MState)

lemma lazy_any_Cons:
  "matches m (many_lazy any_char) (MState b (c # cs) k)
   = MState b (c # cs) k # matches m (many_lazy any_char) (MState (c # b) cs k)"
  by (subst matches.simps(11)) (simp add: clear_Nil step_MState)

lemma many_any_Nil: "matches m (many any_char) (MState b [] k) = [MState b [] k]"
  by (subst matches.simps(11)) (simp add: clear_Nil step_MState)

lemma many_any_Cons:
  "matches m (many any_char) (MState b (c # cs) k)
   = matches m (many any_char) (MState (c # b) cs k) @ [MState b (c # cs) k]"
  by (subst matches.simps(11)) (simp add: clear_Nil step_MState)

lemma lazy_any_self: "MState b t k \<in> set (matches m (many_lazy any_char) (MState b t k))"
  by (cases t) (simp_all add: lazy_any_Nil lazy_any_Cons del: matches.simps(2-10))

lemma lazy_any_reach:
  "MState (rev w @ b) t k \<in> set (matches m (many_lazy any_char) (MState b (w @ t) k))"
proof (induction w arbitrary: b)
  case Nil
  show ?case using lazy_any_self [of b t k m] by simp
next
  case (Cons c w)
  from Cons [of "c # b"] show ?case by (simp add: lazy_any_Cons del: matches.simps(2-10))
qed

lemma many_any_hd: "\<exists>ys. matches m (many any_char) (MState b a k) = MState (rev a @ b) [] k # ys"
proof (induction a arbitrary: b)
  case Nil
  show ?case by (simp add: many_any_Nil del: matches.simps(2-10))
next
  case (Cons c a)
  from Cons [of "c # b"] obtain ys where
    "matches m (many any_char) (MState (c # b) a k) = MState (rev a @ c # b) [] k # ys"
    by blast
  then show ?case by (simp add: many_any_Cons del: matches.simps(2-10))
qed

lemma seq_nonempty:
  "y \<in> set (matches m r x) \<Longrightarrow> matches m s y \<noteq> [] \<Longrightarrow> matches m (Seq r s) x \<noteq> []"
  by auto

lemma tail_nonempty:
  "matches False (Seq (Grp 2 (many any_char)) (Seq Eol Eps)) (MState b a k) \<noteq> []"
proof -
  from many_any_hd [of False b a k] obtain ys where
    y: "matches False (many any_char) (MState b a k) = MState (rev a @ b) [] k # ys"
    by blast
  show ?thesis
    unfolding matches.simps(8) [of False "Grp 2 (many any_char)"] matches.simps(10) y by simp
qed

lemma closing_nonempty:
  "matches False (seqs [opt (Chr CR), Chr NL, lit ''---'', opt (Chr CR), opt (Chr NL),
                        Grp 2 (many any_char), Eol])
     (MState b (NL # js ''---'' @ t) k) \<noteq> []"
  by (simp add: opt_chr_seq_Suc chr_seq lit_dashes js_dashes seq_assoc seq_eps tail_nonempty
        del: matches.simps(2-10) split: list.splits)

lemma opening_matches:
  assumes "nl = [NL] \<or> nl = [CR, NL]"
  shows "matches False (seqs (Bol # lit ''---'' # opt (Chr CR) # Chr NL # rs))
           (MState [] (js ''---'' @ nl @ r1) k)
         = matches False (seqs rs) (MState (rev (js ''---'' @ nl)) r1 k)"
  using assms
  by (auto simp add: opt_chr_seq_Suc chr_seq bol_seq lit_dashes js_dashes seq_assoc seq_eps
        simp del: matches.simps(2-10))

lemma has_closing_split: "has_closing r \<Longrightarrow> \<exists>w t. r = w @ NL # js ''---'' @ t"
proof (induction r)
  case Nil
  then show ?case by simp
next
  case (Cons c cs)
  show ?case
  proof (cases "prefix (NL # js ''---'') (c # cs)")
    case True
    then obtain t where "c # cs = [] @ NL # js ''---'' @ t" by (auto simp: prefix_def)
    then show ?thesis by blast
  next
    case False
    with Cons.prems have "has_closing cs" unfolding has_closing.simps(2) by blast
    from Cons.IH [OF this] obtain w t where "cs = w @ NL # js ''---'' @ t" by blast
    then have "c # cs = (c # w) @ NL # js ''---'' @ t" by simp
    then show ?thesis by blast
  qed
qed

lemma has_block_split:
  assumes "has_block raw"
  shows "\<exists>nl w t. raw = js ''---'' @ nl @ w @ NL # js ''---'' @ t \<and> (nl = [NL] \<or> nl = [CR, NL])"
proof (cases "prefix (js ''---'' @ [NL]) raw")
  case True
  then obtain r where r: "raw = js ''---'' @ [NL] @ r" by (auto simp: prefix_def)
  with assms have "has_closing r" by (simp add: has_block_def js_dashes)
  from has_closing_split [OF this] r show ?thesis by blast
next
  case False
  with assms have p: "prefix (js ''---'' @ [CR, NL]) raw" and c: "has_closing (drop 5 raw)"
    by (simp_all add: has_block_def split: if_splits)
  from p obtain r where r: "raw = js ''---'' @ [CR, NL] @ r" by (auto simp: prefix_def)
  with c have "has_closing r" by (simp add: js_dashes)
  from has_closing_split [OF this] r show ?thesis by blast
qed

lemma block_tail_matches:
  "matches False (seqs [Grp 1 (many_lazy any_char), opt (Chr CR), Chr NL, lit ''---'',
                        opt (Chr CR), opt (Chr NL), Grp 2 (many any_char), Eol])
     (MState b (w @ NL # js ''---'' @ t) k) \<noteq> []"
proof -
  let ?x = "MState b (w @ NL # js ''---'' @ t) k"
  let ?y = "MState (rev w @ b) (NL # js ''---'' @ t) k"
  let ?f = "\<lambda>y. MState (before y) (after y) ((caps y)(1 \<mapsto> consumed ?x y))"
  have "?y \<in> set (matches False (many_lazy any_char) ?x)" by (rule lazy_any_reach)
  then have "?f ?y \<in> set (matches False (Grp 1 (many_lazy any_char)) ?x)"
    unfolding matches.simps(10) set_map by (rule imageI)
  moreover have "matches False (seqs [opt (Chr CR), Chr NL, lit ''---'', opt (Chr CR),
                   opt (Chr NL), Grp 2 (many any_char), Eol]) (?f ?y) \<noteq> []"
    unfolding mstate.sel by (rule closing_nonempty)
  ultimately show ?thesis unfolding seqs.simps(2) [of "Grp 1 (many_lazy any_char)"]
    by (rule seq_nonempty)
qed

lemma block_matches:
  assumes "has_block raw"
  shows "matches False FM_REGEX (MState [] raw Map.empty) \<noteq> []"
proof -
  from has_block_split [OF assms] obtain nl w t where
    raw: "raw = js ''---'' @ nl @ w @ NL # js ''---'' @ t" and nl: "nl = [NL] \<or> nl = [CR, NL]"
    by blast
  show ?thesis
    unfolding raw FM_REGEX_def opening_matches [OF nl] by (rule block_tail_matches)
qed

subsection \<open>Captures are taken from the input ahead\<close>

definition caps_within :: "mstate \<Rightarrow> mstate \<Rightarrow> bool" where
  "caps_within x y \<longleftrightarrow>
     (\<forall>n s. caps y n = Some s \<longrightarrow> caps x n = Some s \<or> length s \<le> length (after x))"

lemma caps_within_refl: "caps_within x x"
  by (simp add: caps_within_def)

lemma caps_within_trans:
  assumes "caps_within x z" and "caps_within z y" and "extends x z"
  shows "caps_within x y"
proof -
  from assms(3) have "length (after z) \<le> length (after x)" by (auto simp: extends_def)
  with assms(1,2) show ?thesis unfolding caps_within_def by (meson le_trans)
qed

lemma caps_within_clear: "caps_within (clear ns x) y \<Longrightarrow> caps_within x y"
  unfolding caps_within_def clear_def by (auto split: if_splits)

lemma caps_within_group:
  assumes "caps_within x y"
  shows "caps_within x (MState (before y) (after y) ((caps y)(n \<mapsto> consumed x y)))"
  using assms unfolding caps_within_def consumed_def by auto

lemma step_caps_within: "list_all (caps_within x) (step ok x)"
  by (cases "after x") (simp_all add: step_def caps_within_def)

lemma chain_caps_within:
  assumes "list_all (caps_within x) zs" and "list_all (extends x) zs"
    and "\<And>z. z \<in> set zs \<Longrightarrow> list_all (caps_within z) (f z)"
  shows "list_all (caps_within x) (concat (map f zs))"
proof -
  have "list_all (\<lambda>z. list_all (caps_within x) (f z)) zs"
    unfolding list_all_iff
  proof (intro ballI)
    fix z y assume z: "z \<in> set zs" and y: "y \<in> set (f z)"
    from assms(1) z have 1: "caps_within x z" by (simp add: list_all_iff)
    from assms(2) z have 2: "extends x z" by (simp add: list_all_iff)
    from assms(3) [OF z] y have "caps_within z y" by (simp add: list_all_iff)
    with 1 show "caps_within x y" using 2 by (rule caps_within_trans)
  qed
  then show ?thesis by (simp add: list_all_concat_map)
qed

lemma list_all_clear:
  assumes "list_all (caps_within (clear ns x)) zs"
  shows "list_all (caps_within x) zs"
  using assms unfolding list_all_iff by (blast intro: caps_within_clear)

lemma list_all_extends_clear: "list_all (extends x) (matches m r (clear ns x))"
  using matches_extends [of "clear ns x" m r] unfolding list_all_iff
  by (blast intro: extends_clear)

lemma matches_caps_within: "list_all (caps_within x) (matches m r x)"
proof (induction m r x rule: matches.induct)
  case (6 m x)
  show ?case by (cases "before x") (simp_all add: caps_within_refl)
next
  case (7 m x)
  show ?case by (cases "after x") (simp_all add: caps_within_refl)
next
  case (8 m r s x)
  have "list_all (caps_within x) (concat (map (matches m s) (matches m r x)))"
    using "8.IH"(1) matches_extends "8.IH"(2) by (rule chain_caps_within)
  then show ?case by simp
next
  case (9 m r s x)
  then show ?case by simp
next
  case (10 m n r x)
  have "list_all (\<lambda>y. caps_within x (MState (before y) (after y) ((caps y)(n \<mapsto> consumed x y))))
          (matches m r x)"
    using "10.IH" unfolding list_all_iff by (blast intro: caps_within_group)
  then show ?case by (simp add: list_all_iff)
next
  case (11 m r mn mx g x)
  let ?x' = "clear (groups r) x"
  let ?mx' = "map_option (\<lambda>k. k - 1) mx"
  show ?case
  proof (cases "mx = Some 0")
    case True
    then show ?thesis by (simp add: matches.simps(11) caps_within_refl)
  next
    case nz: False
    show ?thesis
    proof (cases "0 < mn")
      case True
      have "list_all (caps_within x) (matches m r ?x')"
        using "11.IH"(1) [OF nz True] by (rule list_all_clear)
      then have "list_all (caps_within x)
                   (concat (map (matches m (Rep r (mn - 1) ?mx' g)) (matches m r ?x')))"
        using list_all_extends_clear "11.IH"(2) [OF nz True] by (rule chain_caps_within)
      with nz True show ?thesis by (simp add: matches.simps(11))
    next
      case False
      let ?zs = "filter (\<lambda>y. length (after y) < length (after x)) (matches m r ?x')"
      have inner: "list_all (caps_within x) (matches m r ?x')"
      proof (cases g)
        case True
        show ?thesis using "11.IH"(3) [OF nz False True] by (rule list_all_clear)
      next
        case g: False
        show ?thesis using "11.IH"(5) [OF nz False g] by (rule list_all_clear)
      qed
      have 1: "list_all (caps_within x) ?zs" using inner by (rule list_all_filter_mono)
      have 2: "list_all (extends x) ?zs"
        using list_all_extends_clear by (rule list_all_filter_mono)
      have 3: "\<And>z. z \<in> set ?zs \<Longrightarrow> list_all (caps_within z) (matches m (Rep r 0 ?mx' g) z)"
      proof -
        fix z assume z: "z \<in> set ?zs"
        then have z1: "z \<in> set (matches m r ?x')" and z2: "length (after z) < length (after x)"
          by simp_all
        show "list_all (caps_within z) (matches m (Rep r 0 ?mx' g) z)"
        proof (cases g)
          case True
          from "11.IH"(4) [OF nz False True] z show ?thesis by simp
        next
          case g: False
          from "11.IH"(6) [OF nz False g] z show ?thesis by simp
        qed
      qed
      have "list_all (caps_within x) (concat (map (matches m (Rep r 0 ?mx' g)) ?zs))"
        using 1 2 3 by (rule chain_caps_within)
      with nz False show ?thesis
        by (cases g) (simp_all add: matches.simps(11) caps_within_refl)
    qed
  qed
qed (simp_all add: caps_within_refl step_caps_within)

lemma block_body_shorter:
  assumes "has_block raw" and "re_exec False FM_REGEX raw = Some y"
  shows "length (group y 2) < length raw"
proof -
  from has_block_split [OF assms(1)] obtain nl r1 where
    raw: "raw = js ''---'' @ nl @ r1" and nl: "nl = [NL] \<or> nl = [CR, NL]"
    by blast
  let ?x = "MState (rev (js ''---'' @ nl)) r1 Map.empty"
  let ?rest = "seqs [Grp 1 (many_lazy any_char), opt (Chr CR), Chr NL, lit ''---'',
                     opt (Chr CR), opt (Chr NL), Grp 2 (many any_char), Eol]"
  obtain r where r: "FM_REGEX = Seq Bol r" using FM_REGEX_anchored by blast
  have "matches False FM_REGEX (MState [] raw Map.empty) = matches False ?rest ?x"
    unfolding raw FM_REGEX_def by (rule opening_matches [OF nl])
  with assms(2) obtain ys where "matches False ?rest ?x = y # ys"
    unfolding r re_exec_anchored by (simp split: list.splits)
  with matches_caps_within [of ?x False ?rest] have "caps_within ?x y" by simp
  then have "length (group y 2) \<le> length r1"
    by (auto simp: caps_within_def group_def split: option.splits)
  then show ?thesis by (simp add: raw js_dashes)
qed

text \<open>
  The condition is the weakest one: a document that has such a block is never returned
  whole with empty metadata (its body is shorter than the input, or the parser fails).
\<close>

lemma block_not_whole:
  assumes "has_block raw"
  shows "parseFrontMatter raw \<noteq> Inr (Map.empty, raw)"
proof -
  obtain r where r: "FM_REGEX = Seq Bol r" using FM_REGEX_anchored by blast
  from block_matches [OF assms] have "re_exec False FM_REGEX raw \<noteq> None"
    using anchored_exec [OF r, of raw] by blast
  then obtain y where y: "re_exec False FM_REGEX raw = Some y" by blast
  from block_body_shorter [OF assms y] have "group y 2 \<noteq> raw" by auto
  then show ?thesis
    unfolding parseFrontMatter_def y by (simp split: sum.splits)
qed

subsection \<open>The pattern of a run of list items\<close>


































subsection \<open>Patterns that do not look behind\<close>


definition same_fwd :: "mstate \<Rightarrow> mstate \<Rightarrow> bool" where
  "same_fwd x y \<longleftrightarrow> after x = after y \<and> caps x = caps y"

lemma same_fwd_refl: "same_fwd x x"
  by (simp add: same_fwd_def)









section \<open>The claims\<close>

subsection \<open>The collector\<close>

text \<open>
  C1, as the specification states it, fails: the front matter of its example holds
  \<^verbatim>\<open>tags: [x, y]\<close>, which \<^verbatim>\<open>JSON.parse\<close> refuses, so the run ends with a
  \<^verbatim>\<open>SyntaxError\<close> and produces no post.
\<close>

theorem unquoted_flow_array_throws:
  "generateJson [(js ''a.md'',
     js ''---\<newline>title: Hello\<newline>date: 2024-01-01\<newline>tags: [x, y]\<newline>---\<newline># Hi\<newline>\<newline>Some **bold** text.'')]
   = Inl SyntaxError"
  by code_simp

text \<open>
  C1, amended: with the tags written as JSON strings, \<^verbatim>\<open>tags: ["x", "y"]\<close>, the file
  \<^verbatim>\<open>a.md\<close> of the example yields exactly the post of the claim: title \<^verbatim>\<open>Hello\<close>,
  slug \<^verbatim>\<open>a\<close>, date \<^verbatim>\<open>2024-01-01\<close>, empty summary, tags \<^verbatim>\<open>x\<close> and \<^verbatim>\<open>y\<close>, not
  featured, and the content \<^verbatim>\<open><h1>Hi</h1>\<close>, a line feed, and
  \<^verbatim>\<open><p>Some <strong>bold</strong> text.</p>\<close>.
\<close>

theorem end_to_end_post:
  "generateJson [(js ''a.md'',
     js ''---\<newline>title: Hello\<newline>date: 2024-01-01\<newline>tags: [\"x\", \"y\"]\<newline>---\<newline># Hi\<newline>\<newline>Some **bold** text.'')]
   = Inr [\<lparr>title = FStr (js ''Hello''), slug = FStr (js ''a''), date = FStr (js ''2024-01-01''),
          summary = FStr [], tags = [JStr (js ''x''), JStr (js ''y'')], featured = False,
          content = js ''<h1>Hi</h1>\<newline><p>Some <strong>bold</strong> text.</p>''\<rparr>]"
  by code_simp






text \<open>
  C9 fails on the code, which removes the first \<^verbatim>\<open>.md\<close> of the file name and not the one
  at its end (\<^verbatim>\<open>filename.replace(".md", "")\<close>): the file \<^verbatim>\<open>a.mdx.md\<close>, which sets no
  slug, gets the slug \<^verbatim>\<open>ax.md\<close> and not \<^verbatim>\<open>a.mdx\<close>.
\<close>

theorem slug_first_occurrence:
  "generateJson [(js ''a.mdx.md'', js ''text'')]
   = Inr [\<lparr>title = FStr [], slug = FStr (js ''ax.md''), date = FStr [], summary = FStr [],
          tags = [], featured = False, content = js ''<p>text</p>''\<rparr>]"
  by code_simp




subsection \<open>The front-matter parser\<close>

text \<open>
  C2: when a line of the YAML block is a \<^verbatim>\<open>key: value\<close> line whose trimmed value starts
  with \<^verbatim>\<open>[\<close> and, with every single quote replaced by a double quote, is refused by
  \<^verbatim>\<open>JSON.parse\<close>, then \<^verbatim>\<open>parseFrontMatter\<close> fails with the \<^verbatim>\<open>SyntaxError\<close>: the
  line is neither skipped nor given a default, whatever the other lines hold.
\<close>

theorem malformed_flow_array_fails:
  assumes "yaml_lines raw = Some lines"
    and "i < length lines"
    and "key_line (lines ! i) = Some (key, rest)"
    and "prefix (js ''['') rest"
    and "JSON_parse (replace_all False (Chr SQ) (\<lambda>_ _. [DQ]) rest) = Inl e"
  shows "parseFrontMatter raw = Inl SyntaxError"
proof -
  from assms(1) obtain match where m: "re_exec False FM_REGEX raw = Some match"
    and l: "split_chr NL [] (group match 1) = lines"
    by (auto simp: yaml_lines_def)
  have "parse_lines lines 0 Map.empty = Inl SyntaxError"
    using assms(2-5) by (rule parse_lines_bad) simp
  then have "parse_lines (split_chr NL [] (group match 1)) 0 Map.empty = Inl SyntaxError"
    by (simp only: l)
  then show ?thesis
    unfolding parseFrontMatter_def m by (simp only: option.case sum.case)
qed

text \<open>
  Witness of C2: the malformed array of the specification, \<^verbatim>\<open>tags: [unparseable\<close>, after
  a line that parses.
\<close>

theorem malformed_flow_array_fails_witness:
  "yaml_lines (js ''---\<newline>title: T\<newline>tags: [unparseable\<newline>---\<newline>body'')
     = Some [js ''title: T'', js ''tags: [unparseable'']
   \<and> key_line (js ''tags: [unparseable'') = Some (js ''tags'', js ''[unparseable'')
   \<and> parseFrontMatter (js ''---\<newline>title: T\<newline>tags: [unparseable\<newline>---\<newline>body'')
     = Inl SyntaxError"
proof -
  have y: "yaml_lines (js ''---\<newline>title: T\<newline>tags: [unparseable\<newline>---\<newline>body'')
     = Some [js ''title: T'', js ''tags: [unparseable'']"
    by code_simp
  have i: "1 < length [js ''title: T'', js ''tags: [unparseable'']" by simp
  have k: "key_line (js ''tags: [unparseable'') = Some (js ''tags'', js ''[unparseable'')"
    by code_simp
  then have k': "key_line ([js ''title: T'', js ''tags: [unparseable''] ! 1)
      = Some (js ''tags'', js ''[unparseable'')" by simp
  have p: "prefix (js ''['') (js ''[unparseable'')" by code_simp
  have e: "JSON_parse (replace_all False (Chr SQ) (\<lambda>_ _. [DQ]) (js ''[unparseable''))
      = Inl SyntaxError" by code_simp
  from malformed_flow_array_fails [OF y i k' p e] y k show ?thesis by (intro conjI)
qed





subsection \<open>Documents without a front-matter block\<close>

text \<open>
  C5, as the specification words it, fails: the document \<^verbatim>\<open>---\<close>, \<^verbatim>\<open>a: b\<close>, \<^verbatim>\<open>---c\<close>
  (three lines) has no closing \<^verbatim>\<open>---\<close> line, its last line being \<^verbatim>\<open>---c\<close>, yet the
  parser reads the metadata \<^verbatim>\<open>a: b\<close> from it and returns the body \<^verbatim>\<open>c\<close>: the pattern
  asks for a line feed followed by \<^verbatim>\<open>---\<close>, not for a line that is \<^verbatim>\<open>---\<close>.
\<close>

theorem closing_marker_within_line:
  "\<not> has_delimiter_lines (js ''---\<newline>a: b\<newline>---c'')
   \<and> metadata (js ''---\<newline>a: b\<newline>---c'') (js ''a'') = Some (FStr (js ''b''))
   \<and> map_sum id snd (parseFrontMatter (js ''---\<newline>a: b\<newline>---c'')) = Inr (js ''c'')"
proof -
  have "\<not> has_delimiter_lines (js ''---\<newline>a: b\<newline>---c'')" by code_simp
  moreover have "metadata (js ''---\<newline>a: b\<newline>---c'') (js ''a'') = Some (FStr (js ''b''))"
    by code_simp
  moreover have "map_sum id snd (parseFrontMatter (js ''---\<newline>a: b\<newline>---c'')) = Inr (js ''c'')"
    by code_simp
  ultimately show ?thesis by (intro conjI)
qed

text \<open>
  C5, amended: a document that does not begin with \<^verbatim>\<open>---\<close> and a line break (a line
  feed, or a carriage return and a line feed), or in which no line feed after that line
  break is followed by \<^verbatim>\<open>---\<close>, yields empty metadata and the whole input, unchanged,
  as its body.
\<close>

theorem no_block_empty_metadata:
  assumes "\<not> has_block raw"
  shows "parseFrontMatter raw = Inr (Map.empty, raw)"
  unfolding parseFrontMatter_def by (simp only: no_block_no_match [OF assms] option.case)

text \<open>
  Witness of C5: the document \<^verbatim>\<open>---\<close>, \<^verbatim>\<open>title: x\<close>, whose block is opened and never
  closed.
\<close>

theorem no_block_empty_metadata_witness:
  "\<not> has_block (js ''---\<newline>title: x'')
   \<and> parseFrontMatter (js ''---\<newline>title: x'') = Inr (Map.empty, js ''---\<newline>title: x'')"
proof -
  have h: "\<not> has_block (js ''---\<newline>title: x'')" by code_simp
  from no_block_empty_metadata [OF h] h show ?thesis by (intro conjI)
qed

subsection \<open>List items are wrapped once\<close>






text \<open>
  The pattern allows a line feed between two items and nothing else: when a carriage
  return stands before the line feed, each item is wrapped on its own.
\<close>

lemma items_apart_after_carriage_return:
  "markdownToHtml (js ''- item'' @ [CR, NL] @ js ''- item'')
   = js ''<ul><li>item</li></ul>'' @ [CR, NL] @ js ''<ul><li>item</li></ul>''"
  by code_simp

end
